theory Spec2Isabelle
  imports Main
begin

section \<open>Data model\<close>

text \<open>
  \<^verbatim>\<open>enum class TaskState\<close> of \<^verbatim>\<open>executors.h\<close>, line 16.
\<close>

datatype TaskState = Pending | Running | Completed | Failed | Canceled

text \<open>
  The executor's queue holds \<^verbatim>\<open>TaskSharedPtr\<close>, a type-erased pointer, and the futures
  behind it have result types \<^verbatim>\<open>T\<close> and \<^verbatim>\<open>std::vector<T>\<close> side by side. One
  store holds them all, so the result slot \<^verbatim>\<open>T result_\<close> ranges over a value universe
  with vectors. \<open>Indeterminate\<close> is what a scalar object holds that was never
  initialised nor assigned.
\<close>

datatype 'a val = Atom 'a | Vec "'a val list" | Indeterminate

text \<open>
  What a call can do instead of returning a value. \<open>Thrown e\<close> is a C++ exception with
  payload \<open>e\<close>. \<open>Blocked\<close> is a wait on a condition variable whose predicate is false in
  the store at hand: the call returns only after another thread has changed the store.
  \<open>EmptyFront\<close> is \<^verbatim>\<open>front()\<close> of an empty \<^verbatim>\<open>std::vector\<close> and \<open>NullException\<close> is
  \<^verbatim>\<open>rethrow_exception\<close> of a null \<^verbatim>\<open>exception_ptr\<close>: both are undefined behaviour.
\<close>

datatype 'e error = Thrown 'e | Blocked | EmptyFront | NullException

text \<open>
  \<^verbatim>\<open>class Task\<close> (\<^verbatim>\<open>executors.h\<close>, lines 22 to 65) with the result slot of
  \<^verbatim>\<open>Future<T>\<close> (line 91). The fields keep the source's names without the trailing
  underscore. A \<^verbatim>\<open>TaskSharedPtr\<close> that is not null is the address of its task, a
  \<open>nat\<close>; a \<^verbatim>\<open>TimePoint\<close> is a count of clock ticks. The mutex and the condition
  variable have no field: every operation below is taken at the instant it holds the lock.
\<close>

record ('e, 'a) Task =
  state :: TaskState
  dependencies :: "nat list"
  triggers :: "nat list"
  time_trigger :: int
  exception :: "'e option"
  result :: "'a val"

type_synonym ('e, 'a) heap = "nat \<Rightarrow> ('e, 'a) Task"

text \<open>
  \<^verbatim>\<open>std::function<T()> fn_\<close>: the user's function is opaque. It is modelled by what it
  yields as a function of the task store it can observe.
\<close>

type_synonym ('e, 'a) body = "('e, 'a) heap \<Rightarrow> 'e error + 'a val"

section \<open>The cancellable queue\<close>

text \<open>
  \<^verbatim>\<open>class Queue\<close> (\<^verbatim>\<open>executors/ubqueue.h\<close>): \<^verbatim>\<open>std::queue<T> data_\<close> with the
  front of the queue at the head of the list, and \<^verbatim>\<open>bool is_canceled_\<close>.
\<close>

record 'x Queue =
  data :: "'x list"
  is_canceled :: bool

definition Queue_new :: "'x Queue" where
  "Queue_new = \<lparr>data = [], is_canceled = False\<rparr>"

definition Push :: "'x Queue \<Rightarrow> 'x \<Rightarrow> bool \<times> 'x Queue" where
  "Push q v =
     (if is_canceled q then (False, q)
      else (True, q\<lparr>data := data q @ [v]\<rparr>))"

text \<open>
  \<^verbatim>\<open>Pop\<close> waits until the queue is canceled or not empty. The outer \<open>None\<close> is that
  wait (the call does not return in this state of the queue); the inner \<open>None\<close> is
  \<^verbatim>\<open>std::nullopt\<close>.
\<close>

definition Pop :: "'x Queue \<Rightarrow> ('x option \<times> 'x Queue) option" where
  "Pop q =
     (if \<not> (is_canceled q \<or> data q \<noteq> []) then None
      else if is_canceled q \<and> data q = [] then Some (None, q)
      else Some (Some (hd (data q)), q\<lparr>data := tl (data q)\<rparr>))"

definition Queue_IsCanceled :: "'x Queue \<Rightarrow> bool" where
  "Queue_IsCanceled q = is_canceled q"

definition Queue_Cancel :: "'x Queue \<Rightarrow> 'x Queue" where
  "Queue_Cancel q = q\<lparr>is_canceled := True\<rparr>"

text \<open>Pushing a list of values one after the other; the flags of the pushes come back.\<close>

fun Push_all :: "'x Queue \<Rightarrow> 'x list \<Rightarrow> bool list \<times> 'x Queue" where
  "Push_all q [] = ([], q)"
| "Push_all q (v # vs) =
     (case Push q v of (ok, q1) \<Rightarrow>
        (case Push_all q1 vs of (oks, q2) \<Rightarrow> (ok # oks, q2)))"

text \<open>
  \<open>n\<close> calls of \<^verbatim>\<open>Pop\<close> in a row by one consumer: what they returned, and the queue
  left. The run stops with \<open>None\<close> at a call that would wait.
\<close>

fun Pop_n :: "nat \<Rightarrow> 'x Queue \<Rightarrow> ('x option list \<times> 'x Queue) option" where
  "Pop_n 0 q = Some ([], q)"
| "Pop_n (Suc n) q =
     (case Pop q of
        None \<Rightarrow> None
      | Some (r, q1) \<Rightarrow>
          (case Pop_n n q1 of
             None \<Rightarrow> None
           | Some (rs, q2) \<Rightarrow> Some (r # rs, q2)))"

section \<open>Tasks\<close>

text \<open>The observers of \<^verbatim>\<open>executors.cpp\<close>, lines 18 to 42.\<close>

definition IsPending :: "('e, 'a) heap \<Rightarrow> nat \<Rightarrow> bool" where
  "IsPending h p = (state (h p) = Pending)"

definition IsCompleted :: "('e, 'a) heap \<Rightarrow> nat \<Rightarrow> bool" where
  "IsCompleted h p = (state (h p) = Completed)"

definition IsFailed :: "('e, 'a) heap \<Rightarrow> nat \<Rightarrow> bool" where
  "IsFailed h p = (state (h p) = Failed)"

definition IsCanceled :: "('e, 'a) heap \<Rightarrow> nat \<Rightarrow> bool" where
  "IsCanceled h p = (state (h p) = Canceled)"

definition IsFinished :: "('e, 'a) heap \<Rightarrow> nat \<Rightarrow> bool" where
  "IsFinished h p = (state (h p) \<noteq> Pending \<and> state (h p) \<noteq> Running)"

definition GetError :: "('e, 'a) heap \<Rightarrow> nat \<Rightarrow> 'e option" where
  "GetError h p = exception (h p)"

text \<open>The gate setters, lines 3 to 16.\<close>

definition AddDependency :: "('e, 'a) heap \<Rightarrow> nat \<Rightarrow> nat \<Rightarrow> ('e, 'a) heap" where
  "AddDependency h p dep = h(p := (h p)\<lparr>dependencies := dependencies (h p) @ [dep]\<rparr>)"

definition AddTrigger :: "('e, 'a) heap \<Rightarrow> nat \<Rightarrow> nat \<Rightarrow> ('e, 'a) heap" where
  "AddTrigger h p dep = h(p := (h p)\<lparr>triggers := triggers (h p) @ [dep]\<rparr>)"

definition SetTimeTrigger :: "('e, 'a) heap \<Rightarrow> nat \<Rightarrow> int \<Rightarrow> ('e, 'a) heap" where
  "SetTimeTrigger h p at = h(p := (h p)\<lparr>time_trigger := at\<rparr>)"

text \<open>
  \<^verbatim>\<open>Task::Cancel\<close>, lines 83 to 95. The exchange \<^verbatim>\<open>compare_exchange_weak\<close> is retried
  while the state read back is still \<^verbatim>\<open>Pending\<close>; taken at one instant, the loop
  ends with the exchange done.
\<close>

definition Cancel :: "('e, 'a) heap \<Rightarrow> nat \<Rightarrow> ('e, 'a) heap" where
  "Cancel h p =
     (if state (h p) \<noteq> Pending then h
      else h(p := (h p)\<lparr>state := Canceled\<rparr>))"

text \<open>\<^verbatim>\<open>Task::Wait\<close>, lines 97 to 100: returns once \<^verbatim>\<open>IsFinished()\<close> holds.\<close>

definition Wait :: "('e, 'a) heap \<Rightarrow> nat \<Rightarrow> 'e error + unit" where
  "Wait h p = (if IsFinished h p then Inr () else Inl Blocked)"

text \<open>The loop over \<^verbatim>\<open>dependencies_\<close>, lines 46 to 50: \<open>False\<close> is the early return.\<close>

fun dependencies_finished :: "('e, 'a) heap \<Rightarrow> nat list \<Rightarrow> bool" where
  "dependencies_finished h [] = True"
| "dependencies_finished h (task # rest) =
     (if \<not> IsFinished h task then False else dependencies_finished h rest)"

text \<open>
  The loop over \<^verbatim>\<open>triggers_\<close>, lines 52 to 54, with \<^verbatim>\<open>is_trigger_happened\<close> as the
  accumulator.
\<close>

fun trigger_scan :: "('e, 'a) heap \<Rightarrow> bool \<Rightarrow> nat list \<Rightarrow> bool" where
  "trigger_scan h is_trigger_happened [] = is_trigger_happened"
| "trigger_scan h is_trigger_happened (task # rest) =
     trigger_scan h (is_trigger_happened \<or> IsFinished h task) rest"

text \<open>
  \<^verbatim>\<open>Task::TryExecute\<close> up to the \<^verbatim>\<open>try\<close> block, lines 45 to 70. \<open>None\<close> is one of
  the four early returns, none of which has written anything; \<open>Some h'\<close> is the store
  at line 71, with the exchange to \<^verbatim>\<open>Running\<close> done. \<open>now\<close> is the value that
  \<^verbatim>\<open>Clock::now()\<close> returns at line 58.
\<close>

definition TryExecute_enter :: "int \<Rightarrow> ('e, 'a) heap \<Rightarrow> nat \<Rightarrow> ('e, 'a) heap option" where
  "TryExecute_enter now h p =
     (if \<not> dependencies_finished h (dependencies (h p)) then None
      else if \<not> trigger_scan h (triggers (h p) = []) (triggers (h p)) then None
      else if now < time_trigger (h p) then None
      else if state (h p) \<noteq> Pending then None
      else Some (h(p := (h p)\<lparr>state := Running\<rparr>)))"

text \<open>\<^verbatim>\<open>Future<T>::Run\<close>, lines 75 to 77: \<^verbatim>\<open>result_ = fn_()\<close>.\<close>

definition Run :: "('e, 'a) body \<Rightarrow> ('e, 'a) heap \<Rightarrow> nat \<Rightarrow> 'e error + ('e, 'a) heap" where
  "Run f h p =
     (case f h of
        Inl e \<Rightarrow> Inl e
      | Inr v \<Rightarrow> Inr (h(p := (h p)\<lparr>result := v\<rparr>)))"

text \<open>
  The rest of \<^verbatim>\<open>Task::TryExecute\<close>, lines 71 to 80. \<^verbatim>\<open>catch (...)\<close> takes every
  exception; a body that waits or whose behaviour is undefined is not caught.
\<close>

definition TryExecute_body :: "('e, 'a) body \<Rightarrow> ('e, 'a) heap \<Rightarrow> nat \<Rightarrow> 'e error + ('e, 'a) heap" where
  "TryExecute_body f h p =
     (case Run f h p of
        Inl (Thrown e) \<Rightarrow> Inr (h(p := (h p)\<lparr>state := Failed, exception := Some e\<rparr>))
      | Inl Blocked \<Rightarrow> Inl Blocked
      | Inl EmptyFront \<Rightarrow> Inl EmptyFront
      | Inl NullException \<Rightarrow> Inl NullException
      | Inr h1 \<Rightarrow> Inr (h1(p := (h1 p)\<lparr>state := Completed\<rparr>)))"

text \<open>
  \<^verbatim>\<open>Future<T>::Get\<close>, lines 79 to 85. \<^verbatim>\<open>rethrow_exception\<close> of a null pointer is
  undefined.
\<close>

definition Get :: "('e, 'a) heap \<Rightarrow> nat \<Rightarrow> 'e error + 'a val" where
  "Get h p =
     (case Wait h p of
        Inl w \<Rightarrow> Inl w
      | Inr u \<Rightarrow>
          if IsFailed h p then
            (case GetError h p of None \<Rightarrow> Inl NullException | Some e \<Rightarrow> Inl (Thrown e))
          else Inr (result (h p)))"

section \<open>The executor\<close>

text \<open>
  The memory the program works on: the tasks by address, the function \<^verbatim>\<open>fn_\<close> of each
  (kept beside the store, since it reads the store), the executor's queue
  \<^verbatim>\<open>scheduler_\<close> (a null pointer in it is \<open>None\<close>) and the next address
  \<^verbatim>\<open>make_shared\<close> hands out. Addresses below \<open>fresh\<close> are the allocated ones.
\<close>

record ('e, 'a) system =
  heap :: "('e, 'a) heap"
  fn :: "nat \<Rightarrow> ('e, 'a) body"
  scheduler :: "nat option Queue"
  fresh :: nat

text \<open>\<^verbatim>\<open>Task::TryExecute\<close> whole, lines 44 to 81.\<close>

definition TryExecute :: "int \<Rightarrow> ('e, 'a) system \<Rightarrow> nat \<Rightarrow> 'e error + ('e, 'a) system" where
  "TryExecute now s p =
     (case TryExecute_enter now (heap s) p of
        None \<Rightarrow> Inr s
      | Some h1 \<Rightarrow>
          (case TryExecute_body (fn s p) h1 p of
             Inl e \<Rightarrow> Inl e
           | Inr h2 \<Rightarrow> Inr (s\<lparr>heap := h2\<rparr>)))"

text \<open>\<^verbatim>\<open>Executor::Submit\<close>, lines 121 to 129, and \<^verbatim>\<open>StartShutdown\<close>, lines 131 to 133.\<close>

definition Submit :: "('e, 'a) system \<Rightarrow> nat \<Rightarrow> ('e, 'a) system" where
  "Submit s task =
     (if Queue_IsCanceled (scheduler s) then s\<lparr>heap := Cancel (heap s) task\<rparr>
      else if IsPending (heap s) task
        then s\<lparr>scheduler := snd (Push (scheduler s) (Some task))\<rparr>
      else s)"

definition StartShutdown :: "('e, 'a) system \<Rightarrow> ('e, 'a) system" where
  "StartShutdown s = s\<lparr>scheduler := Queue_Cancel (scheduler s)\<rparr>"

text \<open>
  The worker's loop, lines 108 to 116. \<open>worker_requeue\<close> is lines 113 to 115,
  \<open>worker_body\<close> the body of the loop for the popped \<^verbatim>\<open>task\<close>, and
  \<open>worker_iteration\<close> one turn of the loop with its \<^verbatim>\<open>Pop\<close>; the flag it returns is
  whether the loop goes on (\<open>False\<close>: \<^verbatim>\<open>Pop\<close> returned \<^verbatim>\<open>nullopt\<close> and the thread
  ends).
\<close>

definition worker_requeue :: "('e, 'a) system \<Rightarrow> nat \<Rightarrow> ('e, 'a) system" where
  "worker_requeue s task =
     (if \<not> IsFinished (heap s) task
        then s\<lparr>scheduler := snd (Push (scheduler s) (Some task))\<rparr>
      else s)"

definition worker_body :: "int \<Rightarrow> ('e, 'a) system \<Rightarrow> nat option \<Rightarrow> 'e error + ('e, 'a) system" where
  "worker_body now s task =
     (case task of
        None \<Rightarrow> Inr s
      | Some p \<Rightarrow>
          if IsCanceled (heap s) p then Inr s
          else (case TryExecute now s p of
                  Inl e \<Rightarrow> Inl e
                | Inr s1 \<Rightarrow> Inr (worker_requeue s1 p)))"

definition worker_iteration :: "int \<Rightarrow> ('e, 'a) system \<Rightarrow> 'e error + bool \<times> ('e, 'a) system" where
  "worker_iteration now s =
     (case Pop (scheduler s) of
        None \<Rightarrow> Inl Blocked
      | Some (None, q) \<Rightarrow> Inr (False, s\<lparr>scheduler := q\<rparr>)
      | Some (Some task, q) \<Rightarrow>
          (case worker_body now (s\<lparr>scheduler := q\<rparr>) task of
             Inl e \<Rightarrow> Inl e
           | Inr s1 \<Rightarrow> Inr (True, s1)))"

section \<open>Futures and combinators\<close>

text \<open>
  \<^verbatim>\<open>T result_;\<close> (\<^verbatim>\<open>executors.h\<close>, line 91) has no initialiser, and the constructor
  of line 72 sets \<^verbatim>\<open>fn_\<close> only: the slot is default-initialised. What that leaves
  depends on \<^verbatim>\<open>T\<close>. For a class type the default constructor runs; for a scalar type
  nothing is done. \<open>dflt\<close> below stands for the template argument: \<open>Some t0\<close> when
  \<^verbatim>\<open>T\<close> is a class type whose default constructor makes \<open>t0\<close>, and \<open>None\<close> when
  \<^verbatim>\<open>T\<close> is a scalar type.
\<close>

definition default_initialise :: "'a val option \<Rightarrow> 'a val" where
  "default_initialise dflt = (case dflt of None \<Rightarrow> Indeterminate | Some t0 \<Rightarrow> t0)"

text \<open>
  A task as its constructor leaves it (\<^verbatim>\<open>executors.h\<close>, lines 58 to 64 and 72):
  \<^verbatim>\<open>Pending\<close>, no gates, the time trigger at the clock's reading \<open>now\<close>, no exception,
  and the result slot default-initialised.
\<close>

definition new_Task :: "int \<Rightarrow> 'a val option \<Rightarrow> ('e, 'a) Task" where
  "new_Task now dflt =
     \<lparr>state = Pending, dependencies = [], triggers = [], time_trigger = now,
      exception = None, result = default_initialise dflt\<rparr>"

text \<open>\<^verbatim>\<open>std::make_shared<Future<T>>(fn)\<close>: the new task's address and the memory with it.\<close>

definition make_shared_Future ::
  "int \<Rightarrow> 'a val option \<Rightarrow> ('e, 'a) body \<Rightarrow> ('e, 'a) system \<Rightarrow> nat \<times> ('e, 'a) system" where
  "make_shared_Future now dflt f s =
     (fresh s,
      s\<lparr>heap := (heap s)(fresh s := new_Task now dflt),
        fn := (fn s)(fresh s := f),
        fresh := Suc (fresh s)\<rparr>)"

text \<open>\<^verbatim>\<open>Executor::Invoke\<close>, lines 143 to 148, and \<^verbatim>\<open>Executor::Then\<close>, lines 150 to 156.\<close>

definition Invoke ::
  "int \<Rightarrow> 'a val option \<Rightarrow> ('e, 'a) body \<Rightarrow> ('e, 'a) system \<Rightarrow> nat \<times> ('e, 'a) system" where
  "Invoke now dflt f s =
     (case make_shared_Future now dflt f s of
        (task_ptr, s1) \<Rightarrow> (task_ptr, Submit s1 task_ptr))"

definition Then ::
  "int \<Rightarrow> 'a val option \<Rightarrow> nat \<Rightarrow> ('e, 'a) body \<Rightarrow> ('e, 'a) system \<Rightarrow> nat \<times> ('e, 'a) system" where
  "Then now dflt input f s =
     (case make_shared_Future now dflt f s of
        (task_ptr, s1) \<Rightarrow>
          (task_ptr, Submit (s1\<lparr>heap := AddDependency (heap s1) task_ptr input\<rparr>) task_ptr))"

text \<open>The loops \<^verbatim>\<open>for (const auto& dep : all)\<close> of lines 168 to 170 and 185 to 187.\<close>

fun AddDependency_all :: "('e, 'a) heap \<Rightarrow> nat \<Rightarrow> nat list \<Rightarrow> ('e, 'a) heap" where
  "AddDependency_all h p [] = h"
| "AddDependency_all h p (dep # rest) = AddDependency_all (AddDependency h p dep) p rest"

fun AddTrigger_all :: "('e, 'a) heap \<Rightarrow> nat \<Rightarrow> nat list \<Rightarrow> ('e, 'a) heap" where
  "AddTrigger_all h p [] = h"
| "AddTrigger_all h p (dep # rest) = AddTrigger_all (AddTrigger h p dep) p rest"

text \<open>
  \<^verbatim>\<open>Executor::WhenAll\<close>, lines 158 to 173: the lambda's loop, the lambda, the call.
  \<open>res\<close> is the local vector \<^verbatim>\<open>result\<close>.
\<close>

fun WhenAll_loop :: "('e, 'a) heap \<Rightarrow> 'a val list \<Rightarrow> nat list \<Rightarrow> 'e error + 'a val list" where
  "WhenAll_loop h res [] = Inr res"
| "WhenAll_loop h res (task # rest) =
     (case Get h task of
        Inl e \<Rightarrow> Inl e
      | Inr v \<Rightarrow> WhenAll_loop h (res @ [v]) rest)"

definition WhenAll_body :: "nat list \<Rightarrow> ('e, 'a) body" where
  "WhenAll_body all h =
     (case WhenAll_loop h [] all of
        Inl e \<Rightarrow> Inl e
      | Inr res \<Rightarrow> Inr (Vec res))"

definition WhenAll :: "int \<Rightarrow> nat list \<Rightarrow> ('e, 'a) system \<Rightarrow> nat \<times> ('e, 'a) system" where
  "WhenAll now all s =
     (case make_shared_Future now (Some (Vec [])) (WhenAll_body all) s of
        (task_ptr, s1) \<Rightarrow>
          (task_ptr, Submit (s1\<lparr>heap := AddDependency_all (heap s1) task_ptr all\<rparr>) task_ptr))"

text \<open>
  \<^verbatim>\<open>Executor::WhenFirst\<close>, lines 175 to 190. \<open>WhenFirst_scan\<close> is the loop of lines 178
  to 182 (\<open>Some r\<close>: it returned \<open>r\<close>; \<open>None\<close>: it fell through); line 183 reads
  \<^verbatim>\<open>all.front()\<close>, which is undefined on an empty vector.
\<close>

fun WhenFirst_scan :: "('e, 'a) heap \<Rightarrow> nat list \<Rightarrow> ('e error + 'a val) option" where
  "WhenFirst_scan h [] = None"
| "WhenFirst_scan h (task # rest) =
     (if IsFinished h task then Some (Get h task) else WhenFirst_scan h rest)"

definition WhenFirst_body :: "nat list \<Rightarrow> ('e, 'a) body" where
  "WhenFirst_body all h =
     (case WhenFirst_scan h all of
        Some r \<Rightarrow> r
      | None \<Rightarrow> (case all of [] \<Rightarrow> Inl EmptyFront | front # rest \<Rightarrow> Get h front))"

definition WhenFirst ::
  "int \<Rightarrow> 'a val option \<Rightarrow> nat list \<Rightarrow> ('e, 'a) system \<Rightarrow> nat \<times> ('e, 'a) system" where
  "WhenFirst now dflt all s =
     (case make_shared_Future now dflt (WhenFirst_body all) s of
        (task_ptr, s1) \<Rightarrow>
          (task_ptr, Submit (s1\<lparr>heap := AddTrigger_all (heap s1) task_ptr all\<rparr>) task_ptr))"

text \<open>\<^verbatim>\<open>Executor::WhenAllBeforeDeadline\<close>, lines 192 to 208.\<close>

fun WhenAllBeforeDeadline_loop ::
  "('e, 'a) heap \<Rightarrow> 'a val list \<Rightarrow> nat list \<Rightarrow> 'e error + 'a val list" where
  "WhenAllBeforeDeadline_loop h res [] = Inr res"
| "WhenAllBeforeDeadline_loop h res (task # rest) =
     (if IsFinished h task then
        (case Get h task of
           Inl e \<Rightarrow> Inl e
         | Inr v \<Rightarrow> WhenAllBeforeDeadline_loop h (res @ [v]) rest)
      else WhenAllBeforeDeadline_loop h res rest)"

definition WhenAllBeforeDeadline_body :: "nat list \<Rightarrow> ('e, 'a) body" where
  "WhenAllBeforeDeadline_body all h =
     (case WhenAllBeforeDeadline_loop h [] all of
        Inl e \<Rightarrow> Inl e
      | Inr res \<Rightarrow> Inr (Vec res))"

definition WhenAllBeforeDeadline ::
  "int \<Rightarrow> nat list \<Rightarrow> int \<Rightarrow> ('e, 'a) system \<Rightarrow> nat \<times> ('e, 'a) system" where
  "WhenAllBeforeDeadline now all deadline s =
     (case make_shared_Future now (Some (Vec [])) (WhenAllBeforeDeadline_body all) s of
        (task_ptr, s1) \<Rightarrow>
          (task_ptr, Submit (s1\<lparr>heap := SetTimeTrigger (heap s1) task_ptr deadline\<rparr>) task_ptr))"

section \<open>Interleavings\<close>

text \<open>
  The threads of the program interleave at the grain of the steps below; each step is
  one thread's move, taken at one instant. A call of \<^verbatim>\<open>TryExecute\<close> is two steps, so
  that other threads move while the body is in flight; a turn of the worker's loop is
  \<open>Step_Pop\<close>, the two steps of \<^verbatim>\<open>TryExecute\<close> and \<open>Step_Requeue\<close>. Which thread
  makes a step is not recorded, and a step names the task it works on: the steps are
  those of the workers and of any caller of the public interface.
\<close>

datatype ('e, 'a) step =
    Step_AddDependency nat nat
  | Step_AddTrigger nat nat
  | Step_SetTimeTrigger nat int
  | Step_Cancel nat
  | Step_TryExecute_enter int nat
  | Step_TryExecute_body nat
  | Step_Submit nat
  | Step_StartShutdown
  | Step_Pop
  | Step_Requeue nat
  | Step_Invoke int "'a val option" "('e, 'a) body"
  | Step_Then int "'a val option" nat "('e, 'a) body"
  | Step_WhenAll int "nat list"
  | Step_WhenFirst int "'a val option" "nat list"
  | Step_WhenAllBeforeDeadline int "nat list" int

text \<open>
  \<open>None\<close>: the step cannot be made in this state. \<open>Step_TryExecute_body p\<close> is a thread
  at line 71 for \<open>p\<close>, which is there only between the exchange to \<^verbatim>\<open>Running\<close> and its
  own store of the final state; it cannot be made while the body waits, nor where the
  body's behaviour is undefined. \<open>Step_Pop\<close> cannot be made while \<^verbatim>\<open>Pop\<close> waits.
\<close>

fun exec :: "('e, 'a) step \<Rightarrow> ('e, 'a) system \<Rightarrow> ('e, 'a) system option" where
  "exec (Step_AddDependency p dep) s = Some (s\<lparr>heap := AddDependency (heap s) p dep\<rparr>)"
| "exec (Step_AddTrigger p dep) s = Some (s\<lparr>heap := AddTrigger (heap s) p dep\<rparr>)"
| "exec (Step_SetTimeTrigger p at) s = Some (s\<lparr>heap := SetTimeTrigger (heap s) p at\<rparr>)"
| "exec (Step_Cancel p) s = Some (s\<lparr>heap := Cancel (heap s) p\<rparr>)"
| "exec (Step_TryExecute_enter now p) s =
     (case TryExecute_enter now (heap s) p of
        None \<Rightarrow> Some s
      | Some h1 \<Rightarrow> Some (s\<lparr>heap := h1\<rparr>))"
| "exec (Step_TryExecute_body p) s =
     (if state (heap s p) = Running then
        (case TryExecute_body (fn s p) (heap s) p of
           Inl e \<Rightarrow> None
         | Inr h2 \<Rightarrow> Some (s\<lparr>heap := h2\<rparr>))
      else None)"
| "exec (Step_Submit p) s = Some (Submit s p)"
| "exec Step_StartShutdown s = Some (StartShutdown s)"
| "exec Step_Pop s =
     (case Pop (scheduler s) of
        None \<Rightarrow> None
      | Some (r, q) \<Rightarrow> Some (s\<lparr>scheduler := q\<rparr>))"
| "exec (Step_Requeue p) s = Some (worker_requeue s p)"
| "exec (Step_Invoke now dflt f) s = Some (snd (Invoke now dflt f s))"
| "exec (Step_Then now dflt input f) s = Some (snd (Then now dflt input f s))"
| "exec (Step_WhenAll now all) s = Some (snd (WhenAll now all s))"
| "exec (Step_WhenFirst now dflt all) s = Some (snd (WhenFirst now dflt all s))"
| "exec (Step_WhenAllBeforeDeadline now all deadline) s =
     Some (snd (WhenAllBeforeDeadline now all deadline s))"

fun run :: "('e, 'a) step list \<Rightarrow> ('e, 'a) system \<Rightarrow> ('e, 'a) system option" where
  "run [] s = Some s"
| "run (st # rest) s =
     (case exec st s of
        None \<Rightarrow> None
      | Some s1 \<Rightarrow> run rest s1)"

text \<open>The steps in which a thread holds the pointer \<open>t\<close> and acts on that task's state
  or enqueues it.\<close>

fun targets :: "('e, 'a) step \<Rightarrow> nat \<Rightarrow> bool" where
  "targets (Step_Cancel p) t = (p = t)"
| "targets (Step_TryExecute_enter now p) t = (p = t)"
| "targets (Step_TryExecute_body p) t = (p = t)"
| "targets (Step_Submit p) t = (p = t)"
| "targets (Step_Requeue p) t = (p = t)"
| "targets st t = False"

text \<open>The edges of the state machine, as the specification draws them.\<close>

fun legal :: "TaskState \<Rightarrow> TaskState \<Rightarrow> bool" where
  "legal Pending Running = True"
| "legal Running Completed = True"
| "legal Running Failed = True"
| "legal Pending Canceled = True"
| "legal a b = False"

text \<open>
  How one step can change a task that is already allocated: its gates may change with the
  rest kept; or its state moves along one edge, where the exception slot is written only
  on the way to \<^verbatim>\<open>Failed\<close> and the result slot only on the way to \<^verbatim>\<open>Completed\<close>.
\<close>

definition task_step :: "('e, 'a) Task \<Rightarrow> ('e, 'a) Task \<Rightarrow> bool" where
  "task_step a b =
     ((state b = state a \<and> exception b = exception a \<and> result b = result a)
      \<or> (state a = Pending \<and> (state b = Running \<or> state b = Canceled)
          \<and> exception b = exception a \<and> result b = result a)
      \<or> (state a = Running \<and> state b = Completed \<and> exception b = exception a)
      \<or> (state a = Running \<and> state b = Failed \<and> exception b \<noteq> None
          \<and> result b = result a))"

section \<open>The worker pool\<close>

text \<open>
  Where a worker thread stands in its loop (\<^verbatim>\<open>executors.h\<close>, lines 108 to 116): at the
  call of \<^verbatim>\<open>Pop\<close>; at line 109 with the popped \<^verbatim>\<open>task\<close>; inside \<^verbatim>\<open>TryExecute\<close> at
  line 71, the body about to run; at line 113, \<^verbatim>\<open>TryExecute\<close> having returned; or out
  of the loop, \<^verbatim>\<open>Pop\<close> having returned \<^verbatim>\<open>nullopt\<close>.
\<close>

datatype position = Idle | Popped "nat option" | InBody nat | AfterTry nat | Exited

text \<open>
  One move of a worker from its position: the memory after it and the position reached.
  \<open>None\<close>: the worker cannot move now (\<^verbatim>\<open>Pop\<close> waits, the body waits or its behaviour
  is undefined, the thread has ended). A worker acts only on the pointer it popped.
\<close>

fun worker_move ::
  "int \<Rightarrow> ('e, 'a) system \<Rightarrow> position \<Rightarrow> (('e, 'a) system \<times> position) option" where
  "worker_move now s Idle =
     (case Pop (scheduler s) of
        None \<Rightarrow> None
      | Some (None, q) \<Rightarrow> Some (s\<lparr>scheduler := q\<rparr>, Exited)
      | Some (Some task, q) \<Rightarrow> Some (s\<lparr>scheduler := q\<rparr>, Popped task))"
| "worker_move now s (Popped None) = Some (s, Idle)"
| "worker_move now s (Popped (Some p)) =
     (if IsCanceled (heap s) p then Some (s, Idle)
      else (case TryExecute_enter now (heap s) p of
              None \<Rightarrow> Some (s, AfterTry p)
            | Some h1 \<Rightarrow> Some (s\<lparr>heap := h1\<rparr>, InBody p)))"
| "worker_move now s (InBody p) =
     (case exec (Step_TryExecute_body p) s of
        None \<Rightarrow> None
      | Some s1 \<Rightarrow> Some (s1, AfterTry p))"
| "worker_move now s (AfterTry p) = Some (worker_requeue s p, Idle)"
| "worker_move now s Exited = None"

text \<open>
  The executor with its threads: the memory and the position of each worker. A move is
  made by worker \<open>i\<close> (with the clock's reading), or by a caller of the public
  interface, who makes any step but those on the private queue.
\<close>

record ('e, 'a) pool =
  sys :: "('e, 'a) system"
  workers :: "nat \<Rightarrow> position"

datatype ('e, 'a) move = Worker nat int | Caller "('e, 'a) step"

fun public :: "('e, 'a) step \<Rightarrow> bool" where
  "public Step_Pop = False"
| "public (Step_Requeue p) = False"
| "public st = True"

fun pexec :: "('e, 'a) move \<Rightarrow> ('e, 'a) pool \<Rightarrow> ('e, 'a) pool option" where
  "pexec (Worker i now) P =
     (case worker_move now (sys P) (workers P i) of
        None \<Rightarrow> None
      | Some (s1, pos) \<Rightarrow> Some (P\<lparr>sys := s1, workers := (workers P)(i := pos)\<rparr>))"
| "pexec (Caller st) P =
     (if public st then
        (case exec st (sys P) of
           None \<Rightarrow> None
         | Some s1 \<Rightarrow> Some (P\<lparr>sys := s1\<rparr>))
      else None)"

fun prun :: "('e, 'a) move list \<Rightarrow> ('e, 'a) pool \<Rightarrow> ('e, 'a) pool option" where
  "prun [] P = Some P"
| "prun (a # rest) P =
     (case pexec a P of
        None \<Rightarrow> None
      | Some P1 \<Rightarrow> prun rest P1)"

text \<open>The moves in which a caller, holding the pointer \<open>t\<close>, cancels, submits or runs
  that task.\<close>

fun caller_on :: "('e, 'a) move \<Rightarrow> nat \<Rightarrow> bool" where
  "caller_on (Caller st) t = targets st t"
| "caller_on (Worker i now) t = False"

section \<open>Scenarios\<close>

text \<open>Concrete memories on which the theorems below are instantiated.\<close>

definition gate_heap :: "(string, int) heap" where
  "gate_heap =
     (\<lambda>p. new_Task 0 None)
       (0 := \<lparr>state = Completed, dependencies = [], triggers = [], time_trigger = 0,
               exception = None, result = Atom 1\<rparr>,
        1 := \<lparr>state = Canceled, dependencies = [], triggers = [], time_trigger = 0,
               exception = None, result = Atom 0\<rparr>,
        2 := \<lparr>state = Pending, dependencies = [0], triggers = [3, 1], time_trigger = 5,
               exception = None, result = Atom 0\<rparr>)"

definition gate_sys :: "(string, int) system" where
  "gate_sys =
     \<lparr>heap = gate_heap, fn = (\<lambda>p h. Inr (Atom 42)), scheduler = Queue_new, fresh = 4\<rparr>"

definition shut_sys :: "(string, int) system" where
  "shut_sys = StartShutdown gate_sys"

definition fail_heap :: "(string, int) heap" where
  "fail_heap =
     gate_heap
       (3 := \<lparr>state = Failed, dependencies = [], triggers = [], time_trigger = 0,
               exception = Some ''ErrX'', result = Atom 0\<rparr>)"

definition demo_steps :: "(string, int) step list" where
  "demo_steps =
     [Step_Submit 2, Step_Pop, Step_TryExecute_enter 7 2, Step_Cancel 2,
      Step_TryExecute_body 2, Step_Cancel 2]"

definition demo_final :: "(string, int) system" where
  "demo_final =
     \<lparr>heap = gate_heap
        (2 := \<lparr>state = Completed, dependencies = [0], triggers = [3, 1], time_trigger = 5,
               exception = None, result = Atom 42\<rparr>),
      fn = (\<lambda>p h. Inr (Atom 42)), scheduler = Queue_new, fresh = 4\<rparr>"

definition fail_steps :: "(string, int) step list" where
  "fail_steps =
     [Step_Invoke 1 None (\<lambda>h. Inl (Thrown ''ErrX'')), Step_Pop,
      Step_TryExecute_enter 1 4, Step_TryExecute_body 4]"

definition fail_final :: "(string, int) system" where
  "fail_final =
     \<lparr>heap = gate_heap
        (4 := \<lparr>state = Failed, dependencies = [], triggers = [], time_trigger = 1,
               exception = Some ''ErrX'', result = Indeterminate\<rparr>),
      fn = (\<lambda>p h. Inr (Atom 42))(4 := (\<lambda>h. Inl (Thrown ''ErrX''))),
      scheduler = Queue_new, fresh = 5\<rparr>"



definition drop_pool :: "(string, int) pool" where
  "drop_pool = \<lparr>sys = shut_sys, workers = (\<lambda>j. Idle)(0 := AfterTry 2)\<rparr>"

definition drop_moves :: "(string, int) move list" where
  "drop_moves =
     [Worker 0 9, Worker 1 9, Caller (Step_Invoke 9 None (\<lambda>h. Inr (Atom 1))),
      Caller (Step_Cancel 3), Caller (Step_TryExecute_enter 9 0), Worker 0 10]"

definition drop_pool_canceled :: "(string, int) pool" where
  "drop_pool_canceled =
     \<lparr>sys = shut_sys\<lparr>heap := Cancel (heap shut_sys) 2\<rparr>, workers = (\<lambda>j. Idle)\<rparr>"

section \<open>The queue after cancellation\<close>

lemma Pop_n_canceled:
  "is_canceled q \<Longrightarrow> Pop_n (length (data q)) q = Some (map Some (data q), q\<lparr>data := []\<rparr>)"
proof (induction "data q" arbitrary: q)
  case Nil
  then show ?case by simp
next
  case (Cons x xs)
  from Cons.hyps(2) have d: "data q = x # xs" by simp
  have "Pop q = Some (Some x, q\<lparr>data := xs\<rparr>)"
    using d by (simp add: Pop_def)
  moreover have "Pop_n (length xs) (q\<lparr>data := xs\<rparr>) = Some (map Some xs, q\<lparr>data := []\<rparr>)"
    using Cons.hyps(1)[of "q\<lparr>data := xs\<rparr>"] Cons.prems by simp
  ultimately show ?case using d by simp
qed

lemma Push_all_open:
  "\<not> is_canceled q \<Longrightarrow>
     Push_all q vs = (replicate (length vs) True, q\<lparr>data := data q @ vs\<rparr>)"
proof (induction vs arbitrary: q)
  case Nil
  then show ?case by simp
next
  case (Cons v vs)
  have "Push q v = (True, q\<lparr>data := data q @ [v]\<rparr>)"
    using Cons.prems by (simp add: Push_def)
  then show ?case
    using Cons.IH[of "q\<lparr>data := data q @ [v]\<rparr>"] Cons.prems by simp
qed

text \<open>
  C4. On a canceled queue \<^verbatim>\<open>Push\<close> returns false and leaves the queue as it is, while
  as many calls of \<^verbatim>\<open>Pop\<close> as there are elements return the elements from the front
  on, none of them waiting, and leave the queue empty. The elements stand in the order
  of their pushes: on a queue that is not canceled every push succeeds and appends at
  the back. A \<^verbatim>\<open>Pop\<close> that returns, returns \<^verbatim>\<open>nullopt\<close> exactly when the queue is
  canceled and empty. \<^verbatim>\<open>Cancel\<close> sets the flag and keeps the elements.
\<close>

theorem Queue_after_Cancel:
  "(is_canceled q \<longrightarrow> Push q v = (False, q))
   \<and> (is_canceled q \<longrightarrow>
        Pop_n (length (data q)) q = Some (map Some (data q), q\<lparr>data := []\<rparr>))
   \<and> (\<not> is_canceled q \<longrightarrow>
        Push_all q vs = (replicate (length vs) True, q\<lparr>data := data q @ vs\<rparr>))
   \<and> (\<forall>r q'. Pop q = Some (r, q') \<longrightarrow> (r = None) = (is_canceled q \<and> data q = []))
   \<and> is_canceled (Queue_Cancel q) \<and> data (Queue_Cancel q) = data q"
proof -
  have a: "is_canceled q \<longrightarrow> Push q v = (False, q)"
    by (simp add: Push_def)
  have d: "\<forall>r q'. Pop q = Some (r, q') \<longrightarrow> (r = None) = (is_canceled q \<and> data q = [])"
    by (auto simp: Pop_def split: if_splits)
  have e: "is_canceled (Queue_Cancel q) \<and> data (Queue_Cancel q) = data q"
    by (simp add: Queue_Cancel_def)
  show ?thesis
    using a d e Pop_n_canceled[of q] Push_all_open[of q vs] by blast
qed

theorem Queue_after_Cancel_witness:
  "Push_all Queue_new [1, 2, 3 :: nat]
     = ([True, True, True], \<lparr>data = [1, 2, 3], is_canceled = False\<rparr>)
   \<and> Push (Queue_Cancel \<lparr>data = [1, 2, 3 :: nat], is_canceled = False\<rparr>) 4
       = (False, \<lparr>data = [1, 2, 3], is_canceled = True\<rparr>)
   \<and> Pop_n 3 \<lparr>data = [1, 2, 3 :: nat], is_canceled = True\<rparr>
       = Some ([Some 1, Some 2, Some 3], \<lparr>data = [], is_canceled = True\<rparr>)
   \<and> Pop \<lparr>data = [] :: nat list, is_canceled = True\<rparr>
       = Some (None, \<lparr>data = [], is_canceled = True\<rparr>)"
  using Queue_after_Cancel[of "Queue_new :: nat Queue" 0 "[1, 2, 3]"]
        Queue_after_Cancel[of "\<lparr>data = [1, 2, 3 :: nat], is_canceled = True\<rparr>" 4 "[]"]
  by (simp add: Queue_new_def Queue_Cancel_def Pop_def Push_def numeral_3_eq_3)

section \<open>The gate of TryExecute\<close>

lemma dependencies_finished_iff:
  "dependencies_finished h ds = (\<forall>d\<in>set ds. IsFinished h d)"
  by (induction ds) auto

lemma trigger_scan_iff:
  "trigger_scan h acc ts = (acc \<or> (\<exists>t\<in>set ts. IsFinished h t))"
  by (induction ts arbitrary: acc) auto

lemma TryExecute_enter_iff:
  "TryExecute_enter now h p =
     (if (\<forall>d\<in>set (dependencies (h p)). IsFinished h d)
         \<and> (triggers (h p) = [] \<or> (\<exists>t\<in>set (triggers (h p)). IsFinished h t))
         \<and> time_trigger (h p) \<le> now
         \<and> state (h p) = Pending
      then Some (h(p := (h p)\<lparr>state := Running\<rparr>))
      else None)"
  by (simp add: TryExecute_enter_def dependencies_finished_iff trigger_scan_iff not_less)

text \<open>
  C1. \<^verbatim>\<open>TryExecute\<close> reaches \<^verbatim>\<open>Run\<close> exactly when every dependency is finished,
  the trigger list is empty or one trigger is finished, the clock is at or past the time
  trigger, and the state is \<^verbatim>\<open>Pending\<close>; \<^verbatim>\<open>Run\<close> then starts from the store with
  the task \<^verbatim>\<open>Running\<close>. When one of the four conditions fails, the call returns the
  memory it was given: the task's state, and everything else, is unchanged, whatever the
  body is.
\<close>

theorem TryExecute_gate:
  "TryExecute now s p =
     (if (\<forall>d\<in>set (dependencies (heap s p)). IsFinished (heap s) d)
         \<and> (triggers (heap s p) = [] \<or> (\<exists>t\<in>set (triggers (heap s p)). IsFinished (heap s) t))
         \<and> time_trigger (heap s p) \<le> now
         \<and> state (heap s p) = Pending
      then
        (case Run (fn s p) ((heap s)(p := (heap s p)\<lparr>state := Running\<rparr>)) p of
           Inl (Thrown e) \<Rightarrow>
             Inr (s\<lparr>heap := (heap s)(p := (heap s p)\<lparr>state := Failed, exception := Some e\<rparr>)\<rparr>)
         | Inl Blocked \<Rightarrow> Inl Blocked
         | Inl EmptyFront \<Rightarrow> Inl EmptyFront
         | Inl NullException \<Rightarrow> Inl NullException
         | Inr h1 \<Rightarrow> Inr (s\<lparr>heap := h1(p := (h1 p)\<lparr>state := Completed\<rparr>)\<rparr>))
      else Inr s)"
proof -
  let ?G = "(\<forall>d\<in>set (dependencies (heap s p)). IsFinished (heap s) d)
         \<and> (triggers (heap s p) = [] \<or> (\<exists>t\<in>set (triggers (heap s p)). IsFinished (heap s) t))
         \<and> time_trigger (heap s p) \<le> now
         \<and> state (heap s p) = Pending"
  show ?thesis
  proof (cases ?G)
    case True
    then have "TryExecute_enter now (heap s) p = Some ((heap s)(p := (heap s p)\<lparr>state := Running\<rparr>))"
      by (subst TryExecute_enter_iff) (rule if_P)
    then have "TryExecute now s p =
      (case TryExecute_body (fn s p) ((heap s)(p := (heap s p)\<lparr>state := Running\<rparr>)) p of
         Inl e \<Rightarrow> Inl e | Inr h2 \<Rightarrow> Inr (s\<lparr>heap := h2\<rparr>))"
      by (simp add: TryExecute_def)
    also have "\<dots> =
      (case Run (fn s p) ((heap s)(p := (heap s p)\<lparr>state := Running\<rparr>)) p of
           Inl (Thrown e) \<Rightarrow>
             Inr (s\<lparr>heap := (heap s)(p := (heap s p)\<lparr>state := Failed, exception := Some e\<rparr>)\<rparr>)
         | Inl Blocked \<Rightarrow> Inl Blocked
         | Inl EmptyFront \<Rightarrow> Inl EmptyFront
         | Inl NullException \<Rightarrow> Inl NullException
         | Inr h1 \<Rightarrow> Inr (s\<lparr>heap := h1(p := (h1 p)\<lparr>state := Completed\<rparr>)\<rparr>))"
      by (simp add: TryExecute_body_def split: sum.splits error.splits)
    finally have eq: "TryExecute now s p =
      (case Run (fn s p) ((heap s)(p := (heap s p)\<lparr>state := Running\<rparr>)) p of
           Inl (Thrown e) \<Rightarrow>
             Inr (s\<lparr>heap := (heap s)(p := (heap s p)\<lparr>state := Failed, exception := Some e\<rparr>)\<rparr>)
         | Inl Blocked \<Rightarrow> Inl Blocked
         | Inl EmptyFront \<Rightarrow> Inl EmptyFront
         | Inl NullException \<Rightarrow> Inl NullException
         | Inr h1 \<Rightarrow> Inr (s\<lparr>heap := h1(p := (h1 p)\<lparr>state := Completed\<rparr>)\<rparr>))" .
    show ?thesis
      by (subst if_P[OF True]) (rule eq)
  next
    case False
    then have "TryExecute_enter now (heap s) p = None"
      by (subst TryExecute_enter_iff) (rule if_not_P)
    then have eq: "TryExecute now s p = Inr s"
      by (simp add: TryExecute_def)
    show ?thesis
      by (subst if_not_P[OF False]) (rule eq)
  qed
qed

theorem TryExecute_gate_witness:
  "TryExecute 7 gate_sys 2 =
     Inr (gate_sys\<lparr>heap := gate_heap
            (2 := \<lparr>state = Completed, dependencies = [0], triggers = [3, 1], time_trigger = 5,
                   exception = None, result = Atom 42\<rparr>)\<rparr>)
   \<and> TryExecute 3 gate_sys 2 = Inr gate_sys"
  using TryExecute_gate[of 7 gate_sys 2] TryExecute_gate[of 3 gate_sys 2]
  by (simp add: gate_sys_def gate_heap_def new_Task_def IsFinished_def Run_def)

section \<open>Submit and shutdown\<close>

lemma Submit_heap:
  "heap (Submit s p) = (if Queue_IsCanceled (scheduler s) then Cancel (heap s) p else heap s)"
  by (simp add: Submit_def)

lemma Submit_scheduler:
  "scheduler (Submit s p) =
     (if \<not> Queue_IsCanceled (scheduler s) \<and> IsPending (heap s) p
      then (scheduler s)\<lparr>data := data (scheduler s) @ [Some p]\<rparr>
      else scheduler s)"
  by (simp add: Submit_def Push_def Queue_IsCanceled_def)

lemma Submit_rest: "fn (Submit s p) = fn s" "fresh (Submit s p) = fresh s"
  by (simp_all add: Submit_def)

text \<open>
  C5, as stated, fails: a task that is already \<^verbatim>\<open>Completed\<close> and is submitted after
  \<^verbatim>\<open>StartShutdown\<close> stays \<^verbatim>\<open>Completed\<close>, since \<^verbatim>\<open>Cancel\<close> returns at line 85 for
  every state but \<^verbatim>\<open>Pending\<close>.
\<close>

theorem Submit_after_shutdown_counterexample:
  "Queue_IsCanceled (scheduler shut_sys)
   \<and> state (heap shut_sys 0) = Completed
   \<and> state (heap (Submit shut_sys 0) 0) = Completed
   \<and> state (heap (Submit shut_sys 0) 0) \<noteq> Canceled"
  by (simp add: shut_sys_def StartShutdown_def gate_sys_def gate_heap_def Submit_heap
        Queue_IsCanceled_def Queue_Cancel_def Cancel_def)

text \<open>
  C5, amended. After \<^verbatim>\<open>StartShutdown\<close> the queue is canceled. \<^verbatim>\<open>Submit\<close> on a canceled
  queue leaves the queue as it is and applies \<^verbatim>\<open>Cancel\<close> to the task: a \<^verbatim>\<open>Pending\<close>
  task becomes \<^verbatim>\<open>Canceled\<close>, a task in any other state keeps its state, and no other
  task changes. On a queue that is not canceled \<^verbatim>\<open>Submit\<close> changes no task and appends
  the task at the back of the queue exactly when it is \<^verbatim>\<open>Pending\<close>.
\<close>

theorem Submit_after_shutdown:
  "Queue_IsCanceled (scheduler (StartShutdown s))
   \<and> (Queue_IsCanceled (scheduler s) \<longrightarrow>
        scheduler (Submit s p) = scheduler s
        \<and> state (heap (Submit s p) p) =
            (if state (heap s p) = Pending then Canceled else state (heap s p))
        \<and> (\<forall>u. u \<noteq> p \<longrightarrow> heap (Submit s p) u = heap s u))
   \<and> (\<not> Queue_IsCanceled (scheduler s) \<longrightarrow>
        heap (Submit s p) = heap s
        \<and> is_canceled (scheduler (Submit s p)) = is_canceled (scheduler s)
        \<and> data (scheduler (Submit s p)) =
            (if state (heap s p) = Pending then data (scheduler s) @ [Some p]
             else data (scheduler s)))"
  by (simp add: Submit_heap Submit_scheduler StartShutdown_def Queue_IsCanceled_def
        Queue_Cancel_def Cancel_def IsPending_def)

theorem Submit_after_shutdown_witness:
  "Queue_IsCanceled (scheduler shut_sys)
   \<and> state (heap shut_sys 2) = Pending
   \<and> state (heap (Submit shut_sys 2) 2) = Canceled
   \<and> scheduler (Submit shut_sys 2) = scheduler shut_sys
   \<and> \<not> Queue_IsCanceled (scheduler gate_sys)
   \<and> data (scheduler (Submit gate_sys 2)) = [Some 2]
   \<and> data (scheduler (Submit gate_sys 0)) = []"
proof -
  have c: "Queue_IsCanceled (scheduler shut_sys)" "\<not> Queue_IsCanceled (scheduler gate_sys)"
    by (simp_all add: shut_sys_def StartShutdown_def gate_sys_def Queue_IsCanceled_def
          Queue_Cancel_def Queue_new_def)
  have p: "state (heap shut_sys 2) = Pending" "state (heap gate_sys 2) = Pending"
    "state (heap gate_sys 0) \<noteq> Pending" "data (scheduler gate_sys) = []"
    by (simp_all add: shut_sys_def StartShutdown_def gate_sys_def gate_heap_def Queue_new_def)
  have "state (heap (Submit shut_sys 2) 2) = Canceled
      \<and> scheduler (Submit shut_sys 2) = scheduler shut_sys"
    using Submit_after_shutdown[of shut_sys 2] c p by simp
  moreover have "data (scheduler (Submit gate_sys 2)) = [Some 2]"
    using Submit_after_shutdown[of gate_sys 2] c p by simp
  moreover have "data (scheduler (Submit gate_sys 0)) = []"
    using Submit_after_shutdown[of gate_sys 0] c p by simp
  ultimately show ?thesis using c p by simp
qed

section \<open>Combinators\<close>

lemma AddTrigger_all_eq:
  "AddTrigger_all h p ts = h(p := (h p)\<lparr>triggers := triggers (h p) @ ts\<rparr>)"
  by (induction ts arbitrary: h) (simp_all add: AddTrigger_def)

lemma AddDependency_all_eq:
  "AddDependency_all h p ds = h(p := (h p)\<lparr>dependencies := dependencies (h p) @ ds\<rparr>)"
  by (induction ds arbitrary: h) (simp_all add: AddDependency_def)

lemma Cancel_fields:
  "dependencies (Cancel h p q) = dependencies (h q)"
  "triggers (Cancel h p q) = triggers (h q)"
  "time_trigger (Cancel h p q) = time_trigger (h q)"
  "exception (Cancel h p q) = exception (h q)"
  "result (Cancel h p q) = result (h q)"
  by (simp_all add: Cancel_def)

lemma Submit_fields:
  "dependencies (heap (Submit s p) q) = dependencies (heap s q)"
  "triggers (heap (Submit s p) q) = triggers (heap s q)"
  "time_trigger (heap (Submit s p) q) = time_trigger (heap s q)"
  "exception (heap (Submit s p) q) = exception (heap s q)"
  "result (heap (Submit s p) q) = result (heap s q)"
  by (simp_all add: Submit_heap Cancel_fields)

lemma Get_finished:
  "IsFinished h x \<Longrightarrow> Get h x \<noteq> Inl Blocked \<and> Get h x \<noteq> Inl EmptyFront"
  by (simp add: Get_def Wait_def split: option.splits)

lemma Get_not_EmptyFront: "Get h x \<noteq> Inl EmptyFront"
  by (simp add: Get_def Wait_def split: option.splits)

lemma WhenFirst_scan_first:
  "\<exists>x\<in>set all. IsFinished h x \<Longrightarrow>
     \<exists>i<length all. IsFinished h (all ! i) \<and> (\<forall>j<i. \<not> IsFinished h (all ! j))
        \<and> WhenFirst_scan h all = Some (Get h (all ! i))"
proof (induction all)
  case Nil
  then show ?case by simp
next
  case (Cons a all)
  show ?case
  proof (cases "IsFinished h a")
    case True
    then have "IsFinished h ((a # all) ! 0) \<and> (\<forall>j<0. \<not> IsFinished h ((a # all) ! j))
        \<and> WhenFirst_scan h (a # all) = Some (Get h ((a # all) ! 0))"
      by simp
    then show ?thesis by blast
  next
    case False
    with Cons.prems have "\<exists>x\<in>set all. IsFinished h x" by auto
    from Cons.IH[OF this] obtain i where i: "i < length all" "IsFinished h (all ! i)"
      "\<forall>j<i. \<not> IsFinished h (all ! j)" "WhenFirst_scan h all = Some (Get h (all ! i))"
      by blast
    have "\<forall>j<Suc i. \<not> IsFinished h ((a # all) ! j)"
    proof (intro allI impI)
      fix j assume "j < Suc i"
      then show "\<not> IsFinished h ((a # all) ! j)"
        using False i(3) by (cases j) auto
    qed
    then have "Suc i < length (a # all) \<and> IsFinished h ((a # all) ! Suc i)
        \<and> (\<forall>j<Suc i. \<not> IsFinished h ((a # all) ! j))
        \<and> WhenFirst_scan h (a # all) = Some (Get h ((a # all) ! Suc i))"
      using i False by simp
    then show ?thesis by blast
  qed
qed

lemma WhenFirst_scan_None:
  "(WhenFirst_scan h all = None) = (\<forall>x\<in>set all. \<not> IsFinished h x)"
  by (induction all) auto

lemma WhenFirst_fields:
  "fst (WhenFirst now dflt all s) = fresh s"
  "heap (snd (WhenFirst now dflt all s)) =
     (if Queue_IsCanceled (scheduler s)
      then Cancel ((heap s)(fresh s := (new_Task now dflt)\<lparr>triggers := all\<rparr>)) (fresh s)
      else (heap s)(fresh s := (new_Task now dflt)\<lparr>triggers := all\<rparr>))"
  "fn (snd (WhenFirst now dflt all s)) = (fn s)(fresh s := WhenFirst_body all)"
  "scheduler (snd (WhenFirst now dflt all s)) =
     (if Queue_IsCanceled (scheduler s) then scheduler s
      else (scheduler s)\<lparr>data := data (scheduler s) @ [Some (fresh s)]\<rparr>)"
  "fresh (snd (WhenFirst now dflt all s)) = Suc (fresh s)"
  by (simp_all add: WhenFirst_def make_shared_Future_def AddTrigger_all_eq new_Task_def
        Submit_heap Submit_scheduler Submit_rest IsPending_def)

text \<open>
  C6. The future that \<^verbatim>\<open>WhenFirst\<close> returns has the elements of the vector as its
  triggers, in their order, and no dependencies. On every store in which an element is
  finished, its body returns what \<^verbatim>\<open>Get\<close> returns (or raises what it raises) on the
  element at the least index among the finished ones, and it does not wait.
\<close>

theorem WhenFirst_first_finished:
  assumes "WhenFirst now dflt all s = (p, s')"
  shows "triggers (heap s' p) = all \<and> dependencies (heap s' p) = []
       \<and> (\<forall>h. (\<exists>x\<in>set all. IsFinished h x) \<longrightarrow>
            (\<exists>i<length all. IsFinished h (all ! i) \<and> (\<forall>j<i. \<not> IsFinished h (all ! j))
               \<and> fn s' p h = Get h (all ! i) \<and> fn s' p h \<noteq> Inl Blocked))"
proof -
  from assms have p: "p = fst (WhenFirst now dflt all s)"
    and s': "s' = snd (WhenFirst now dflt all s)"
    by simp_all
  have gates: "triggers (heap s' p) = all \<and> dependencies (heap s' p) = []"
    unfolding s' p by (simp add: WhenFirst_fields Cancel_fields new_Task_def)
  have f: "fn s' p = WhenFirst_body all"
    unfolding s' p by (simp add: WhenFirst_fields)
  have body: "\<exists>i<length all. IsFinished h (all ! i) \<and> (\<forall>j<i. \<not> IsFinished h (all ! j))
               \<and> fn s' p h = Get h (all ! i) \<and> fn s' p h \<noteq> Inl Blocked"
    if "\<exists>x\<in>set all. IsFinished h x" for h
  proof -
    from WhenFirst_scan_first[OF that] obtain i where i: "i < length all" "IsFinished h (all ! i)"
      "\<forall>j<i. \<not> IsFinished h (all ! j)" "WhenFirst_scan h all = Some (Get h (all ! i))"
      by blast
    then have "fn s' p h = Get h (all ! i)"
      by (simp add: f WhenFirst_body_def)
    moreover have "Get h (all ! i) \<noteq> Inl Blocked"
      using Get_finished[OF i(2)] by simp
    ultimately show ?thesis using i by auto
  qed
  show ?thesis using gates body by blast
qed

theorem WhenFirst_first_finished_witness:
  "triggers (heap (snd (WhenFirst 9 None [3, 1, 0] gate_sys)) 4) = [3, 1, 0]
   \<and> dependencies (heap (snd (WhenFirst 9 None [3, 1, 0] gate_sys)) 4) = []
   \<and> fn (snd (WhenFirst 9 None [3, 1, 0] gate_sys)) 4 gate_heap = Inr (Atom 0)
   \<and> Get gate_heap 1 = Inr (Atom 0)"
proof -
  define all :: "nat list" where "all = [3, 1, 0]"
  define s' where "s' = snd (WhenFirst 9 None all gate_sys)"
  have w: "WhenFirst 9 None all gate_sys = (4, s')"
    by (simp add: prod_eq_iff WhenFirst_fields gate_sys_def s'_def)
  have fin: "\<not> IsFinished gate_heap 3" "IsFinished gate_heap 1" "IsFinished gate_heap 0"
    by (simp_all add: IsFinished_def gate_heap_def new_Task_def)
  have g: "Get gate_heap 1 = Inr (Atom 0)"
    by (simp add: Get_def Wait_def IsFinished_def IsFailed_def gate_heap_def)
  have ex: "\<exists>x\<in>set all. IsFinished gate_heap x"
    using fin by (simp add: all_def)
  note th = WhenFirst_first_finished[OF w]
  from th have t: "triggers (heap s' 4) = all" "dependencies (heap s' 4) = []"
    by blast+
  from th ex obtain i where
    i: "i < length all" "IsFinished gate_heap (all ! i)"
      "\<forall>j<i. \<not> IsFinished gate_heap (all ! j)"
      "fn s' 4 gate_heap = Get gate_heap (all ! i)"
    by blast
  from i(1) have "i = 0 \<or> i = 1 \<or> i = 2"
    by (auto simp: all_def)
  then have "i = 1"
    using i(2) i(3)[rule_format, of 1] fin by (auto simp: all_def)
  then have "fn s' 4 gate_heap = Inr (Atom 0)"
    using i(4) g by (simp add: all_def)
  then show ?thesis
    using t g unfolding s'_def all_def by simp
qed

lemma Get_ok: "IsFinished h x \<Longrightarrow> \<not> IsFailed h x \<Longrightarrow> Get h x = Inr (result (h x))"
  by (simp add: Get_def Wait_def)

lemma Get_failed: "IsFailed h x \<Longrightarrow> \<exists>e. Get h x = Inl e"
  by (simp add: Get_def Wait_def IsFinished_def IsFailed_def split: option.splits)

lemma IsFailed_IsFinished: "IsFailed h x \<Longrightarrow> IsFinished h x"
  by (simp add: IsFinished_def IsFailed_def)

lemma WhenAllBeforeDeadline_loop_ok:
  "\<forall>x\<in>set all. \<not> IsFailed h x \<Longrightarrow>
     WhenAllBeforeDeadline_loop h res all =
       Inr (res @ map (\<lambda>x. result (h x)) (filter (IsFinished h) all))"
  by (induction all arbitrary: res) (simp_all add: Get_ok)

lemma WhenAllBeforeDeadline_loop_failed:
  "find (IsFailed h) all = Some x \<Longrightarrow>
     \<exists>e. Get h x = Inl e \<and> WhenAllBeforeDeadline_loop h res all = Inl e"
proof (induction all arbitrary: res)
  case Nil
  then show ?case by simp
next
  case (Cons a all)
  show ?case
  proof (cases "IsFailed h a")
    case True
    with Cons.prems have "x = a" by simp
    moreover from Get_failed[OF True] obtain e where "Get h a = Inl e" by blast
    ultimately show ?thesis
      using True by (simp add: IsFailed_IsFinished)
  next
    case False
    with Cons.prems have f: "find (IsFailed h) all = Some x" by simp
    show ?thesis
    proof (cases "IsFinished h a")
      case True
      then show ?thesis
        using False Cons.IH[OF f] by (simp add: Get_ok)
    next
      case False
      then show ?thesis
        using Cons.IH[OF f] by simp
    qed
  qed
qed

lemma WhenAllBeforeDeadline_fields:
  "fst (WhenAllBeforeDeadline now all deadline s) = fresh s"
  "heap (snd (WhenAllBeforeDeadline now all deadline s)) =
     (if Queue_IsCanceled (scheduler s)
      then Cancel ((heap s)(fresh s := (new_Task now (Some (Vec [])))\<lparr>time_trigger := deadline\<rparr>)) (fresh s)
      else (heap s)(fresh s := (new_Task now (Some (Vec [])))\<lparr>time_trigger := deadline\<rparr>))"
  "fn (snd (WhenAllBeforeDeadline now all deadline s)) =
     (fn s)(fresh s := WhenAllBeforeDeadline_body all)"
  "scheduler (snd (WhenAllBeforeDeadline now all deadline s)) =
     (if Queue_IsCanceled (scheduler s) then scheduler s
      else (scheduler s)\<lparr>data := data (scheduler s) @ [Some (fresh s)]\<rparr>)"
  "fresh (snd (WhenAllBeforeDeadline now all deadline s)) = Suc (fresh s)"
  by (simp_all add: WhenAllBeforeDeadline_def make_shared_Future_def SetTimeTrigger_def
        new_Task_def Submit_heap Submit_scheduler Submit_rest IsPending_def)

text \<open>
  C7, as stated, fails where a finished element has failed: with the three elements
  finished and the last one \<^verbatim>\<open>Failed\<close>, the body raises that element's exception and
  returns no vector.
\<close>

theorem WhenAllBeforeDeadline_collects_counterexample:
  "IsFinished fail_heap 1 \<and> IsFinished fail_heap 0 \<and> IsFinished fail_heap 3
   \<and> fn (snd (WhenAllBeforeDeadline 9 [1, 0, 3] 100 gate_sys)) 4 fail_heap
       = Inl (Thrown ''ErrX'')"
  by (simp add: WhenAllBeforeDeadline_fields gate_sys_def WhenAllBeforeDeadline_body_def
        fail_heap_def gate_heap_def Get_def Wait_def IsFinished_def IsFailed_def GetError_def)

text \<open>
  C7, amended. The future that \<^verbatim>\<open>WhenAllBeforeDeadline\<close> returns has no dependencies, no
  triggers and the deadline as its time trigger. On a store in which no element has
  failed, its body returns the vector of the results of the elements that are finished
  in that store, in input order, each being what \<^verbatim>\<open>Get\<close> returns on that element;
  elements that are not finished are left out. Where an element has failed, \<^verbatim>\<open>Get\<close>
  raises on the first such element and the body raises the same instead of returning a
  vector.
\<close>

theorem WhenAllBeforeDeadline_collects:
  assumes "WhenAllBeforeDeadline now all deadline s = (p, s')"
  shows "dependencies (heap s' p) = [] \<and> triggers (heap s' p) = []
       \<and> time_trigger (heap s' p) = deadline
       \<and> (\<forall>h. (\<forall>x\<in>set all. \<not> IsFailed h x) \<longrightarrow>
            fn s' p h = Inr (Vec (map (\<lambda>x. result (h x)) (filter (IsFinished h) all)))
            \<and> map (Get h) (filter (IsFinished h) all) =
                map (\<lambda>x. Inr (result (h x))) (filter (IsFinished h) all))
       \<and> (\<forall>h x. find (IsFailed h) all = Some x \<longrightarrow>
            (\<exists>e. Get h x = Inl e \<and> fn s' p h = Inl e))"
proof -
  from assms have p: "p = fst (WhenAllBeforeDeadline now all deadline s)"
    and s': "s' = snd (WhenAllBeforeDeadline now all deadline s)"
    by simp_all
  have gates: "dependencies (heap s' p) = [] \<and> triggers (heap s' p) = []
       \<and> time_trigger (heap s' p) = deadline"
    unfolding s' p by (simp add: WhenAllBeforeDeadline_fields Cancel_fields new_Task_def)
  have f: "fn s' p = WhenAllBeforeDeadline_body all"
    unfolding s' p by (simp add: WhenAllBeforeDeadline_fields)
  have ok: "fn s' p h = Inr (Vec (map (\<lambda>x. result (h x)) (filter (IsFinished h) all)))
            \<and> map (Get h) (filter (IsFinished h) all) =
                map (\<lambda>x. Inr (result (h x))) (filter (IsFinished h) all)"
    if "\<forall>x\<in>set all. \<not> IsFailed h x" for h
  proof -
    have "fn s' p h = Inr (Vec (map (\<lambda>x. result (h x)) (filter (IsFinished h) all)))"
      using WhenAllBeforeDeadline_loop_ok[OF that, of "[]"]
      by (simp add: f WhenAllBeforeDeadline_body_def)
    moreover have "map (Get h) (filter (IsFinished h) all) =
                map (\<lambda>x. Inr (result (h x))) (filter (IsFinished h) all)"
      using that by (auto simp: Get_ok)
    ultimately show ?thesis by blast
  qed
  have bad: "\<exists>e. Get h x = Inl e \<and> fn s' p h = Inl e"
    if "find (IsFailed h) all = Some x" for h x
    using WhenAllBeforeDeadline_loop_failed[OF that, of "[]"]
    by (auto simp: f WhenAllBeforeDeadline_body_def)
  show ?thesis using gates ok bad by blast
qed

theorem WhenAllBeforeDeadline_collects_witness:
  "time_trigger (heap (snd (WhenAllBeforeDeadline 9 [3, 1, 0] 100 gate_sys)) 4) = 100
   \<and> fn (snd (WhenAllBeforeDeadline 9 [3, 1, 0] 100 gate_sys)) 4 gate_heap
       = Inr (Vec [Atom 0, Atom 1])
   \<and> fn (snd (WhenAllBeforeDeadline 9 [3, 1, 0] 100 gate_sys)) 4 fail_heap
       = Inl (Thrown ''ErrX'')"
proof -
  define all :: "nat list" where "all = [3, 1, 0]"
  define s' where "s' = snd (WhenAllBeforeDeadline 9 all 100 gate_sys)"
  have w: "WhenAllBeforeDeadline 9 all 100 gate_sys = (4, s')"
    by (simp add: prod_eq_iff WhenAllBeforeDeadline_fields gate_sys_def s'_def)
  note th = WhenAllBeforeDeadline_collects[OF w]
  have nf: "\<forall>x\<in>set all. \<not> IsFailed gate_heap x"
    by (simp add: all_def IsFailed_def gate_heap_def new_Task_def)
  have fl: "filter (IsFinished gate_heap) all = [1, 0]"
    by (simp add: all_def IsFinished_def gate_heap_def new_Task_def)
  have ff: "find (IsFailed fail_heap) all = Some 3"
    by (simp add: all_def IsFailed_def fail_heap_def)
  have g3: "Get fail_heap 3 = Inl (Thrown ''ErrX'')"
    by (simp add: Get_def Wait_def IsFinished_def IsFailed_def GetError_def fail_heap_def)
  from th have "time_trigger (heap s' 4) = 100" by blast
  moreover from th nf have
    "fn s' 4 gate_heap = Inr (Vec (map (\<lambda>x. result (gate_heap x)) (filter (IsFinished gate_heap) all)))"
    by blast
  then have "fn s' 4 gate_heap = Inr (Vec [Atom 0, Atom 1])"
    unfolding fl by (simp add: gate_heap_def)
  moreover from th ff obtain e where "Get fail_heap 3 = Inl e" "fn s' 4 fail_heap = Inl e"
    by blast
  then have "fn s' 4 fail_heap = Inl (Thrown ''ErrX'')"
    using g3 by simp
  ultimately show ?thesis
    unfolding s'_def all_def by simp
qed

lemma WhenFirst_body_EmptyFront:
  "(WhenFirst_body vec h = Inl EmptyFront) = (vec = [])"
proof (cases vec)
  case Nil
  then show ?thesis by (simp add: WhenFirst_body_def)
next
  case (Cons a rest)
  show ?thesis
  proof (cases "WhenFirst_scan h vec")
    case None
    then show ?thesis
      using Cons by (simp add: WhenFirst_body_def Get_not_EmptyFront)
  next
    case (Some r)
    then have "\<exists>x\<in>set vec. IsFinished h x"
      using WhenFirst_scan_None[of h vec] by auto
    from WhenFirst_scan_first[OF this] Some obtain i where "r = Get h (vec ! i)" by auto
    then show ?thesis
      using Cons Some by (simp add: WhenFirst_body_def Get_not_EmptyFront)
  qed
qed

text \<open>
  C10. \<^verbatim>\<open>WhenFirst\<close> on the empty vector makes a future with no triggers, no
  dependencies and the time trigger at the time of the call, whose body reads
  \<^verbatim>\<open>front()\<close> of the empty vector on every store. Submitted to a queue that is not
  canceled, the future is enqueued \<^verbatim>\<open>Pending\<close>, and \<^verbatim>\<open>TryExecute\<close> at any later time
  passes the gate and runs into that read. The body of \<^verbatim>\<open>WhenFirst\<close> reads the front
  of an empty vector exactly when the input vector is empty.
\<close>

theorem WhenFirst_empty:
  assumes "WhenFirst now dflt [] s = (p, s')"
  shows "triggers (heap s' p) = [] \<and> dependencies (heap s' p) = []
       \<and> time_trigger (heap s' p) = now
       \<and> (\<forall>h. fn s' p h = Inl EmptyFront)
       \<and> (\<not> Queue_IsCanceled (scheduler s) \<longrightarrow>
            data (scheduler s') = data (scheduler s) @ [Some p]
            \<and> state (heap s' p) = Pending
            \<and> (\<forall>now'. now \<le> now' \<longrightarrow> TryExecute now' s' p = Inl EmptyFront))
       \<and> (\<forall>vec h. (WhenFirst_body vec (h :: ('e, 'a) heap) = Inl EmptyFront) = (vec = []))"
proof -
  from assms have p: "p = fst (WhenFirst now dflt [] s)"
    and s': "s' = snd (WhenFirst now dflt [] s)"
    by simp_all
  have gates: "triggers (heap s' p) = [] \<and> dependencies (heap s' p) = []
       \<and> time_trigger (heap s' p) = now"
    unfolding s' p by (simp add: WhenFirst_fields Cancel_fields new_Task_def)
  have f: "fn s' p = WhenFirst_body []"
    unfolding s' p by (simp add: WhenFirst_fields)
  then have body: "\<forall>h. fn s' p h = Inl EmptyFront"
    by (simp add: WhenFirst_body_def)
  have sub: "data (scheduler s') = data (scheduler s) @ [Some p]
            \<and> state (heap s' p) = Pending
            \<and> (\<forall>now'. now \<le> now' \<longrightarrow> TryExecute now' s' p = Inl EmptyFront)"
    if nc: "\<not> Queue_IsCanceled (scheduler s)"
  proof -
    have q: "data (scheduler s') = data (scheduler s) @ [Some p]"
      and st: "state (heap s' p) = Pending"
      unfolding s' p using nc by (simp_all add: WhenFirst_fields new_Task_def)
    have "TryExecute now' s' p = Inl EmptyFront" if "now \<le> now'" for now'
    proof -
      have "TryExecute_enter now' (heap s') p = Some ((heap s')(p := (heap s' p)\<lparr>state := Running\<rparr>))"
        using gates st that by (simp add: TryExecute_enter_iff)
      then show ?thesis
        using body by (simp add: TryExecute_def TryExecute_body_def Run_def)
    qed
    then show ?thesis using q st by blast
  qed
  show ?thesis
    using gates body sub WhenFirst_body_EmptyFront by blast
qed

theorem WhenFirst_empty_witness:
  "triggers (heap (snd (WhenFirst 9 None [] gate_sys)) 4) = []
   \<and> data (scheduler (snd (WhenFirst 9 None [] gate_sys))) = [Some 4]
   \<and> TryExecute 9 (snd (WhenFirst 9 None [] gate_sys)) 4 = Inl EmptyFront"
proof -
  define s' where "s' = snd (WhenFirst 9 None [] gate_sys)"
  have w: "WhenFirst 9 None [] gate_sys = (4, s')"
    by (simp add: prod_eq_iff WhenFirst_fields gate_sys_def s'_def)
  have nc: "\<not> Queue_IsCanceled (scheduler gate_sys)" "data (scheduler gate_sys) = []"
    by (simp_all add: gate_sys_def Queue_IsCanceled_def Queue_new_def)
  note th = WhenFirst_empty[OF w]
  from th have "triggers (heap s' 4) = []" by blast
  moreover from th nc(1) have "data (scheduler s') = data (scheduler gate_sys) @ [Some 4]"
    by blast
  then have "data (scheduler s') = [Some 4]"
    by (simp only: nc(2) append_Nil)
  moreover from th nc have "\<forall>now'. 9 \<le> now' \<longrightarrow> TryExecute now' s' 4 = Inl EmptyFront"
    by blast
  then have "TryExecute 9 s' 4 = Inl EmptyFront" by simp
  ultimately show ?thesis
    unfolding s'_def by simp
qed

section \<open>Steps and runs\<close>

lemma Invoke_fields:
  "fst (Invoke now dflt f s) = fresh s"
  "heap (snd (Invoke now dflt f s)) =
     (if Queue_IsCanceled (scheduler s)
      then Cancel ((heap s)(fresh s := new_Task now dflt)) (fresh s)
      else (heap s)(fresh s := new_Task now dflt))"
  "fn (snd (Invoke now dflt f s)) = (fn s)(fresh s := f)"
  "scheduler (snd (Invoke now dflt f s)) =
     (if Queue_IsCanceled (scheduler s) then scheduler s
      else (scheduler s)\<lparr>data := data (scheduler s) @ [Some (fresh s)]\<rparr>)"
  "fresh (snd (Invoke now dflt f s)) = Suc (fresh s)"
  by (simp_all add: Invoke_def make_shared_Future_def new_Task_def
        Submit_heap Submit_scheduler Submit_rest IsPending_def)

lemma Then_fields:
  "fst (Then now dflt input f s) = fresh s"
  "heap (snd (Then now dflt input f s)) =
     (if Queue_IsCanceled (scheduler s)
      then Cancel ((heap s)(fresh s := (new_Task now dflt)\<lparr>dependencies := [input]\<rparr>)) (fresh s)
      else (heap s)(fresh s := (new_Task now dflt)\<lparr>dependencies := [input]\<rparr>))"
  "fn (snd (Then now dflt input f s)) = (fn s)(fresh s := f)"
  "scheduler (snd (Then now dflt input f s)) =
     (if Queue_IsCanceled (scheduler s) then scheduler s
      else (scheduler s)\<lparr>data := data (scheduler s) @ [Some (fresh s)]\<rparr>)"
  "fresh (snd (Then now dflt input f s)) = Suc (fresh s)"
  by (simp_all add: Then_def make_shared_Future_def new_Task_def AddDependency_def
        Submit_heap Submit_scheduler Submit_rest IsPending_def)

lemma WhenAll_fields:
  "fst (WhenAll now all s) = fresh s"
  "heap (snd (WhenAll now all s)) =
     (if Queue_IsCanceled (scheduler s)
      then Cancel ((heap s)(fresh s := (new_Task now (Some (Vec [])))\<lparr>dependencies := all\<rparr>)) (fresh s)
      else (heap s)(fresh s := (new_Task now (Some (Vec [])))\<lparr>dependencies := all\<rparr>))"
  "fn (snd (WhenAll now all s)) = (fn s)(fresh s := WhenAll_body all)"
  "scheduler (snd (WhenAll now all s)) =
     (if Queue_IsCanceled (scheduler s) then scheduler s
      else (scheduler s)\<lparr>data := data (scheduler s) @ [Some (fresh s)]\<rparr>)"
  "fresh (snd (WhenAll now all s)) = Suc (fresh s)"
  by (simp_all add: WhenAll_def make_shared_Future_def new_Task_def AddDependency_all_eq
        Submit_heap Submit_scheduler Submit_rest IsPending_def)

lemmas combinator_fields =
  Invoke_fields Then_fields WhenAll_fields WhenFirst_fields WhenAllBeforeDeadline_fields

lemma task_step_refl: "task_step a a"
  by (simp add: task_step_def)

lemma Cancel_task_step: "task_step (h q) (Cancel h p q)"
  by (auto simp: Cancel_def task_step_def split: if_splits)

lemma TryExecute_enter_Some:
  "TryExecute_enter now h p = Some h1 \<Longrightarrow>
     state (h p) = Pending \<and> h1 = h(p := (h p)\<lparr>state := Running\<rparr>)"
  by (simp add: TryExecute_enter_def split: if_splits)

lemma TryExecute_enter_task_step:
  "TryExecute_enter now h p = Some h1 \<Longrightarrow> task_step (h q) (h1 q)"
  by (auto dest!: TryExecute_enter_Some simp: task_step_def split: if_splits)

lemma TryExecute_body_Inr:
  "TryExecute_body f h p = Inr h2 \<Longrightarrow>
     (\<exists>v. f h = Inr v \<and> h2 = h(p := (h p)\<lparr>result := v, state := Completed\<rparr>))
     \<or> (\<exists>e. f h = Inl (Thrown e) \<and> h2 = h(p := (h p)\<lparr>state := Failed, exception := Some e\<rparr>))"
  by (auto simp: TryExecute_body_def Run_def split: sum.splits error.splits)

lemma TryExecute_body_task_step:
  "TryExecute_body f h p = Inr h2 \<Longrightarrow> state (h p) = Running \<Longrightarrow> task_step (h q) (h2 q)"
  by (auto dest!: TryExecute_body_Inr simp: task_step_def split: if_splits)

lemma exec_fresh: "exec st s = Some s' \<Longrightarrow> fresh s \<le> fresh s'"
  by (cases st)
     (auto simp: combinator_fields Submit_rest StartShutdown_def worker_requeue_def
           split: option.splits sum.splits if_splits)

lemma exec_task_step:
  assumes "exec st s = Some s'" "p < fresh s"
  shows "task_step (heap s p) (heap s' p)"
proof (cases st)
  case (Step_AddDependency q d)
  with assms show ?thesis by (auto simp: AddDependency_def task_step_def split: if_splits)
next
  case (Step_AddTrigger q d)
  with assms show ?thesis by (auto simp: AddTrigger_def task_step_def split: if_splits)
next
  case (Step_SetTimeTrigger q d)
  with assms show ?thesis by (auto simp: SetTimeTrigger_def task_step_def split: if_splits)
next
  case (Step_Cancel q)
  with assms show ?thesis by (auto simp: Cancel_task_step)
next
  case (Step_TryExecute_enter now q)
  with assms show ?thesis
    by (auto simp: task_step_refl TryExecute_enter_task_step split: option.splits)
next
  case (Step_TryExecute_body q)
  with assms show ?thesis
    by (auto simp: TryExecute_body_task_step split: if_splits sum.splits)
next
  case (Step_Submit q)
  with assms show ?thesis by (auto simp: Submit_heap task_step_refl Cancel_task_step)
next
  case Step_StartShutdown
  with assms show ?thesis by (auto simp: StartShutdown_def task_step_refl)
next
  case Step_Pop
  with assms show ?thesis by (auto simp: task_step_refl split: option.splits)
next
  case (Step_Requeue q)
  with assms show ?thesis by (auto simp: worker_requeue_def task_step_refl)
next
  case (Step_Invoke now dflt f)
  with assms show ?thesis by (auto simp: combinator_fields Cancel_def task_step_refl split: if_splits)
next
  case (Step_Then now dflt i f)
  with assms show ?thesis by (auto simp: combinator_fields Cancel_def task_step_refl split: if_splits)
next
  case (Step_WhenAll now all)
  with assms show ?thesis by (auto simp: combinator_fields Cancel_def task_step_refl split: if_splits)
next
  case (Step_WhenFirst now dflt all)
  with assms show ?thesis by (auto simp: combinator_fields Cancel_def task_step_refl split: if_splits)
next
  case (Step_WhenAllBeforeDeadline now all d)
  with assms show ?thesis by (auto simp: combinator_fields Cancel_def task_step_refl split: if_splits)
qed

lemma exec_new_task:
  assumes "exec st s = Some s'" "fresh s \<le> p" "p < fresh s'"
  shows "(state (heap s' p) = Pending \<or> state (heap s' p) = Canceled)
       \<and> exception (heap s' p) = None"
  using assms
  by (cases st)
     (auto simp: combinator_fields Submit_rest StartShutdown_def worker_requeue_def
           Cancel_def new_Task_def
           split: option.splits sum.splits if_splits)

lemma run_fresh: "run steps s = Some s' \<Longrightarrow> fresh s \<le> fresh s'"
proof (induction steps arbitrary: s)
  case Nil
  then show ?case by simp
next
  case (Cons st steps)
  then obtain s1 where s1: "exec st s = Some s1" "run steps s1 = Some s'"
    by (auto split: option.splits)
  from exec_fresh[OF s1(1)] Cons.IH[OF s1(2)] show ?case by simp
qed

lemma run_task_steps:
  "run steps s = Some s' \<Longrightarrow> p < fresh s \<Longrightarrow> task_step\<^sup>*\<^sup>* (heap s p) (heap s' p)"
proof (induction steps arbitrary: s)
  case Nil
  then show ?case by simp
next
  case (Cons st steps)
  then obtain s1 where s1: "exec st s = Some s1" "run steps s1 = Some s'"
    by (auto split: option.splits)
  have "p < fresh s1" using exec_fresh[OF s1(1)] Cons.prems(2) by simp
  from Cons.IH[OF s1(2) this] exec_task_step[OF s1(1) Cons.prems(2)]
  show ?case by (rule converse_rtranclp_into_rtranclp[rotated])
qed

text \<open>
  The calls that are not steps are runs of steps: a call of \<^verbatim>\<open>TryExecute\<close> that returns
  is its first step alone or both of its steps, and a turn of the worker's loop that
  returns is a run that starts with \<open>Step_Pop\<close>. What holds along every run therefore
  holds across these calls.
\<close>

lemma TryExecute_as_run:
  assumes "TryExecute now s p = Inr s1"
  shows "run [Step_TryExecute_enter now p] s = Some s1
       \<or> run [Step_TryExecute_enter now p, Step_TryExecute_body p] s = Some s1"
proof (cases "TryExecute_enter now (heap s) p")
  case None
  with assms show ?thesis by (simp add: TryExecute_def)
next
  case (Some h1)
  with assms obtain h2 where h2: "TryExecute_body (fn s p) h1 p = Inr h2" "s1 = s\<lparr>heap := h2\<rparr>"
    by (auto simp: TryExecute_def split: sum.splits)
  have "state (h1 p) = Running"
    using TryExecute_enter_Some[OF Some] by simp
  then have "run [Step_TryExecute_enter now p, Step_TryExecute_body p] s = Some s1"
    using Some h2 by simp
  then show ?thesis ..
qed

lemma worker_iteration_as_run:
  assumes "worker_iteration now s = Inr (go_on, s1)"
  shows "\<exists>steps. run (Step_Pop # steps) s = Some s1"
proof -
  from assms obtain r q where pop: "Pop (scheduler s) = Some (r, q)"
    by (auto simp: worker_iteration_def split: option.splits)
  let ?s0 = "s\<lparr>scheduler := q\<rparr>"
  have e: "exec Step_Pop s = Some ?s0" using pop by simp
  show ?thesis
  proof (cases r)
    case None
    with assms pop have "s1 = ?s0" by (simp add: worker_iteration_def)
    with e have "run (Step_Pop # []) s = Some s1" by simp
    then show ?thesis ..
  next
    case (Some task)
    with assms pop have wb: "worker_body now ?s0 task = Inr s1"
      by (auto simp: worker_iteration_def split: sum.splits)
    show ?thesis
    proof (cases task)
      case None
      with wb have "s1 = ?s0" by (simp add: worker_body_def)
      with e have "run (Step_Pop # []) s = Some s1" by simp
      then show ?thesis ..
    next
      case (Some p)
      show ?thesis
      proof (cases "IsCanceled (heap ?s0) p")
        case True
        with wb Some have "s1 = ?s0" by (simp add: worker_body_def)
        with e have "run (Step_Pop # []) s = Some s1" by simp
        then show ?thesis ..
      next
        case False
        with wb Some obtain s2 where s2: "TryExecute now ?s0 p = Inr s2"
          "s1 = worker_requeue s2 p"
          by (auto simp: worker_body_def split: sum.splits)
        from TryExecute_as_run[OF s2(1)] show ?thesis
        proof
          assume "run [Step_TryExecute_enter now p] ?s0 = Some s2"
          then have "run (Step_Pop # [Step_TryExecute_enter now p, Step_Requeue p]) s = Some s1"
            using e s2(2) by (auto split: option.splits)
          then show ?thesis ..
        next
          assume "run [Step_TryExecute_enter now p, Step_TryExecute_body p] ?s0 = Some s2"
          then have "run (Step_Pop # [Step_TryExecute_enter now p, Step_TryExecute_body p,
                Step_Requeue p]) s = Some s1"
            using e s2(2) by (auto split: option.splits if_splits sum.splits)
          then show ?thesis ..
        qed
      qed
    qed
  qed
qed

section \<open>The state machine\<close>

lemma task_step_legal:
  "task_step a b \<Longrightarrow> state b = state a \<or> legal (state a) (state b)"
  by (auto simp: task_step_def)

lemma task_steps_legal:
  "task_step\<^sup>*\<^sup>* a b \<Longrightarrow> legal\<^sup>*\<^sup>* (state a) (state b)"
proof (induction rule: rtranclp_induct)
  case base
  then show ?case by simp
next
  case (step y z)
  from task_step_legal[OF step.hyps(2)] show ?case
  proof
    assume "state z = state y"
    with step.IH show ?thesis by simp
  next
    assume "legal (state y) (state z)"
    with step.IH show ?thesis by (rule rtranclp.rtrancl_into_rtrancl)
  qed
qed

lemma legal_terminal:
  "legal\<^sup>*\<^sup>* a b \<Longrightarrow> a \<noteq> Pending \<Longrightarrow> a \<noteq> Running \<Longrightarrow> b = a"
proof (induction rule: rtranclp_induct)
  case base
  then show ?case by simp
next
  case (step y z)
  then have "y = a" by simp
  with step.hyps(2) step.prems show ?case
    by (cases a; cases z; simp)
qed

lemma legal_Running:
  "legal\<^sup>*\<^sup>* a b \<Longrightarrow> a = Running \<Longrightarrow> b \<noteq> Canceled \<and> b \<noteq> Pending"
proof (induction rule: rtranclp_induct)
  case base
  then show ?case by simp
next
  case (step y z)
  then have "y \<noteq> Canceled \<and> y \<noteq> Pending" by simp
  with step.hyps(2) show ?case
    by (cases y; cases z; simp)
qed

lemma TryExecute_task_steps:
  assumes "TryExecute now s q = Inr s2"
  shows "task_step\<^sup>*\<^sup>* (heap s p) (heap s2 p)"
proof (cases "TryExecute_enter now (heap s) q")
  case None
  with assms have "s2 = s" by (simp add: TryExecute_def)
  then show ?thesis by simp
next
  case (Some h1)
  with assms obtain h2 where h2: "TryExecute_body (fn s q) h1 q = Inr h2" "s2 = s\<lparr>heap := h2\<rparr>"
    by (auto simp: TryExecute_def split: sum.splits)
  have r: "state (h1 q) = Running"
    using TryExecute_enter_Some[OF Some] by simp
  have "task_step (heap s p) (h1 p)"
    by (rule TryExecute_enter_task_step[OF Some])
  moreover have "task_step (h1 p) (h2 p)"
    by (rule TryExecute_body_task_step[OF h2(1) r])
  ultimately show ?thesis
    using h2(2) by simp
qed

text \<open>
  C2. Along every interleaving of steps, the state of an allocated task follows a path
  of the edges \<^verbatim>\<open>Pending\<close> to \<^verbatim>\<open>Running\<close>, \<^verbatim>\<open>Running\<close> to \<^verbatim>\<open>Completed\<close>,
  \<^verbatim>\<open>Running\<close> to \<^verbatim>\<open>Failed\<close> and \<^verbatim>\<open>Pending\<close> to \<^verbatim>\<open>Canceled\<close>: a finished task
  keeps its state for ever, and a \<^verbatim>\<open>Running\<close> task never becomes \<^verbatim>\<open>Canceled\<close> or
  \<^verbatim>\<open>Pending\<close>. One step moves a state along at most one edge. The same holds for a
  call of \<^verbatim>\<open>Cancel\<close>, which leaves a \<^verbatim>\<open>Running\<close> task as it is, and for a whole call
  of \<^verbatim>\<open>TryExecute\<close> that returns.
\<close>

theorem state_follows_legal_path:
  "(run steps s = Some s1 \<and> p < fresh s \<longrightarrow>
      legal\<^sup>*\<^sup>* (state (heap s p)) (state (heap s1 p))
      \<and> (IsFinished (heap s) p \<longrightarrow> state (heap s1 p) = state (heap s p))
      \<and> (state (heap s p) = Running \<longrightarrow>
           state (heap s1 p) \<noteq> Canceled \<and> state (heap s1 p) \<noteq> Pending))
   \<and> (exec st s = Some s1 \<and> p < fresh s \<longrightarrow>
        state (heap s1 p) = state (heap s p) \<or> legal (state (heap s p)) (state (heap s1 p)))
   \<and> legal\<^sup>*\<^sup>* (state (h p)) (state (Cancel h q p))
   \<and> (state (h q) = Running \<longrightarrow> Cancel h q = h)
   \<and> (TryExecute now s q = Inr s2 \<longrightarrow>
        legal\<^sup>*\<^sup>* (state (heap s p)) (state (heap s2 p)))"
proof -
  have a: "legal\<^sup>*\<^sup>* (state (heap s p)) (state (heap s1 p))
      \<and> (IsFinished (heap s) p \<longrightarrow> state (heap s1 p) = state (heap s p))
      \<and> (state (heap s p) = Running \<longrightarrow>
           state (heap s1 p) \<noteq> Canceled \<and> state (heap s1 p) \<noteq> Pending)"
    if "run steps s = Some s1" "p < fresh s"
  proof -
    have l: "legal\<^sup>*\<^sup>* (state (heap s p)) (state (heap s1 p))"
      using run_task_steps[OF that] by (rule task_steps_legal)
    show ?thesis
      using l legal_terminal[OF l] legal_Running[OF l] by (auto simp: IsFinished_def)
  qed
  have b: "state (heap s1 p) = state (heap s p) \<or> legal (state (heap s p)) (state (heap s1 p))"
    if "exec st s = Some s1" "p < fresh s"
    using exec_task_step[OF that] by (rule task_step_legal)
  have c: "legal\<^sup>*\<^sup>* (state (h p)) (state (Cancel h q p))"
    using task_step_legal[OF Cancel_task_step[of h p q]] by auto
  have d: "state (h q) = Running \<longrightarrow> Cancel h q = h"
    by (simp add: Cancel_def)
  have e: "legal\<^sup>*\<^sup>* (state (heap s p)) (state (heap s2 p))"
    if "TryExecute now s q = Inr s2"
    using TryExecute_task_steps[OF that] by (rule task_steps_legal)
  show ?thesis using a b c d e by blast
qed

lemma demo_run: "run demo_steps gate_sys = Some demo_final"
  by (simp add: demo_steps_def demo_final_def gate_sys_def gate_heap_def Submit_def
        Queue_IsCanceled_def Queue_new_def IsPending_def Push_def Pop_def
        TryExecute_enter_def IsFinished_def Cancel_def TryExecute_body_def Run_def new_Task_def)

theorem state_follows_legal_path_witness:
  "run demo_steps gate_sys = Some demo_final
   \<and> state (heap gate_sys 2) = Pending \<and> state (heap demo_final 2) = Completed
   \<and> legal\<^sup>*\<^sup>* (state (heap gate_sys 2)) (state (heap demo_final 2))
   \<and> state (heap demo_final 0) = state (heap gate_sys 0)"
proof -
  have f: "(2::nat) < fresh gate_sys" "(0::nat) < fresh gate_sys" "IsFinished (heap gate_sys) 0"
    by (simp_all add: gate_sys_def gate_heap_def IsFinished_def)
  have st: "state (heap gate_sys 2) = Pending" "state (heap demo_final 2) = Completed"
    by (simp_all add: gate_sys_def gate_heap_def demo_final_def)
  from state_follows_legal_path[of demo_steps gate_sys demo_final 2] demo_run f(1)
  have "legal\<^sup>*\<^sup>* (state (heap gate_sys 2)) (state (heap demo_final 2))"
    by blast
  moreover from state_follows_legal_path[of demo_steps gate_sys demo_final 0] demo_run f(2,3)
  have "state (heap demo_final 0) = state (heap gate_sys 0)"
    by blast
  ultimately show ?thesis using demo_run st by blast
qed

section \<open>Exception capture\<close>

lemma task_step_error_iff:
  "task_step a b \<Longrightarrow> (exception a \<noteq> None) = (state a = Failed) \<Longrightarrow>
     (exception b \<noteq> None) = (state b = Failed)"
  by (auto simp: task_step_def)

lemma exec_error_iff:
  assumes "exec st s = Some s'"
    and "\<forall>q<fresh s. (exception (heap s q) \<noteq> None) = (state (heap s q) = Failed)"
  shows "\<forall>q<fresh s'. (exception (heap s' q) \<noteq> None) = (state (heap s' q) = Failed)"
proof (intro allI impI)
  fix q assume q: "q < fresh s'"
  show "(exception (heap s' q) \<noteq> None) = (state (heap s' q) = Failed)"
  proof (cases "q < fresh s")
    case True
    from task_step_error_iff[OF exec_task_step[OF assms(1) True]] assms(2) True
    show ?thesis by blast
  next
    case False
    then have "fresh s \<le> q" by simp
    from exec_new_task[OF assms(1) this q] show ?thesis by auto
  qed
qed

lemma run_error_iff:
  "run steps s = Some s' \<Longrightarrow>
     \<forall>q<fresh s. (exception (heap s q) \<noteq> None) = (state (heap s q) = Failed) \<Longrightarrow>
     \<forall>q<fresh s'. (exception (heap s' q) \<noteq> None) = (state (heap s' q) = Failed)"
proof (induction steps arbitrary: s)
  case Nil
  then show ?case by simp
next
  case (Cons st steps)
  then obtain s1 where s1: "exec st s = Some s1" "run steps s1 = Some s'"
    by (auto split: option.splits)
  from Cons.IH[OF s1(2) exec_error_iff[OF s1(1) Cons.prems(2)]] show ?case .
qed

lemma TryExecute_body_Thrown:
  "f h = Inl (Thrown e) \<Longrightarrow>
     TryExecute_body f h p = Inr (h(p := (h p)\<lparr>state := Failed, exception := Some e\<rparr>))"
  by (simp add: TryExecute_body_def Run_def)

lemma Get_Failed_Some:
  "state (h p) = Failed \<Longrightarrow> exception (h p) = Some e \<Longrightarrow> Get h p = Inl (Thrown e)"
  by (simp add: Get_def Wait_def IsFinished_def IsFailed_def GetError_def)

text \<open>
  C3. When the body raises an exception with payload \<open>e\<close>, the rest of \<^verbatim>\<open>TryExecute\<close>
  returns with the task \<^verbatim>\<open>Failed\<close> and \<open>e\<close> in its exception slot, and \<^verbatim>\<open>Get\<close> on the
  task raises \<open>e\<close>; so does a whole call of \<^verbatim>\<open>TryExecute\<close> that passes the gate.
  If \<^verbatim>\<open>GetError\<close> holds an exception exactly for the \<^verbatim>\<open>Failed\<close> tasks among the
  allocated ones, then it does so after every interleaving of steps, for the tasks
  allocated on the way as well.
\<close>

theorem exception_capture:
  "(f h = Inl (Thrown e) \<longrightarrow>
      (\<exists>h2. TryExecute_body f h p = Inr h2 \<and> IsFailed h2 p \<and> GetError h2 p = Some e
         \<and> Get h2 p = Inl (Thrown e)))
   \<and> (TryExecute_enter now (heap s) p = Some h1 \<and> fn s p h1 = Inl (Thrown e) \<longrightarrow>
        (\<exists>s2. TryExecute now s p = Inr s2 \<and> IsFailed (heap s2) p
           \<and> GetError (heap s2) p = Some e \<and> Get (heap s2) p = Inl (Thrown e)))
   \<and> ((\<forall>q<fresh s. (GetError (heap s) q \<noteq> None) = IsFailed (heap s) q)
        \<and> run steps s = Some s3 \<longrightarrow>
        (\<forall>q<fresh s3. (GetError (heap s3) q \<noteq> None) = IsFailed (heap s3) q))"
proof -
  have a: "\<exists>h2. TryExecute_body g k p = Inr h2 \<and> IsFailed h2 p \<and> GetError h2 p = Some e
         \<and> Get h2 p = Inl (Thrown e)"
    if "g k = Inl (Thrown e)" for g k
  proof -
    let ?h2 = "k(p := (k p)\<lparr>state := Failed, exception := Some e\<rparr>)"
    have "TryExecute_body g k p = Inr ?h2"
      using that by (simp add: TryExecute_body_def Run_def)
    moreover have "IsFailed ?h2 p" "GetError ?h2 p = Some e"
      by (simp_all add: IsFailed_def GetError_def)
    moreover have "Get ?h2 p = Inl (Thrown e)"
      by (rule Get_Failed_Some) simp_all
    ultimately show ?thesis by blast
  qed
  have b: "\<exists>s2. TryExecute now s p = Inr s2 \<and> IsFailed (heap s2) p
           \<and> GetError (heap s2) p = Some e \<and> Get (heap s2) p = Inl (Thrown e)"
    if "TryExecute_enter now (heap s) p = Some h1" "fn s p h1 = Inl (Thrown e)"
  proof -
    from a[of "fn s p" h1] that(2) obtain h2 where h2: "TryExecute_body (fn s p) h1 p = Inr h2"
      "IsFailed h2 p" "GetError h2 p = Some e" "Get h2 p = Inl (Thrown e)"
      by blast
    have "TryExecute now s p = Inr (s\<lparr>heap := h2\<rparr>)"
      using that(1) h2(1) by (simp add: TryExecute_def)
    then show ?thesis using h2 by simp
  qed
  have c: "\<forall>q<fresh s3. (GetError (heap s3) q \<noteq> None) = IsFailed (heap s3) q"
    if "\<forall>q<fresh s. (GetError (heap s) q \<noteq> None) = IsFailed (heap s) q"
      "run steps s = Some s3"
    using run_error_iff[OF that(2)] that(1) by (simp add: GetError_def IsFailed_def)
  show ?thesis using a[of f h] b c by blast
qed

lemma fail_run: "run fail_steps gate_sys = Some fail_final"
  by (simp add: fail_steps_def fail_final_def gate_sys_def gate_heap_def combinator_fields
        default_initialise_def
        Invoke_def make_shared_Future_def Submit_def
        Queue_IsCanceled_def Queue_new_def IsPending_def Push_def Pop_def
        TryExecute_enter_def IsFinished_def Cancel_def TryExecute_body_def Run_def new_Task_def)

theorem exception_capture_witness:
  "run fail_steps gate_sys = Some fail_final
   \<and> (GetError (heap fail_final) 4 \<noteq> None) = IsFailed (heap fail_final) 4
   \<and> IsFailed (heap fail_final) 4
   \<and> Get (heap fail_final) 4 = Inl (Thrown ''ErrX'')
   \<and> (\<exists>h2. TryExecute_body (\<lambda>h. Inl (Thrown ''ErrX'')) gate_heap 2 = Inr h2
         \<and> Get h2 2 = Inl (Thrown ''ErrX''))"
proof -
  have init: "\<forall>q<fresh gate_sys. (GetError (heap gate_sys) q \<noteq> None) = IsFailed (heap gate_sys) q"
    by (simp add: gate_sys_def gate_heap_def GetError_def IsFailed_def new_Task_def)
  have four: "(4::nat) < fresh fail_final"
    by (simp add: fail_final_def)
  note th = exception_capture[of "\<lambda>h. Inl (Thrown ''ErrX'')" gate_heap "''ErrX''" 2 0 gate_sys
      gate_heap fail_steps fail_final]
  from th init fail_run four
  have i: "(GetError (heap fail_final) 4 \<noteq> None) = IsFailed (heap fail_final) 4"
    by blast
  from th have e: "\<exists>h2. TryExecute_body (\<lambda>h. Inl (Thrown ''ErrX'')) gate_heap 2 = Inr h2
         \<and> Get h2 2 = Inl (Thrown ''ErrX'')"
    by blast
  have "IsFailed (heap fail_final) 4" "Get (heap fail_final) 4 = Inl (Thrown ''ErrX'')"
    by (simp_all add: fail_final_def IsFailed_def Get_def Wait_def IsFinished_def GetError_def)
  then show ?thesis using fail_run i e by blast
qed

section \<open>Get on a canceled future\<close>






section \<open>Tasks dropped at shutdown\<close>

lemma exec_keeps_dropped:
  assumes "exec st s = Some s'" "\<not> targets st t"
    and "is_canceled (scheduler s)" "state (heap s t) = Pending"
    and "Some t \<notin> set (data (scheduler s))" "t < fresh s"
  shows "is_canceled (scheduler s') \<and> state (heap s' t) = Pending
       \<and> Some t \<notin> set (data (scheduler s')) \<and> t < fresh s'"
proof (cases st)
  case (Step_AddDependency q d)
  with assms show ?thesis by (auto simp: AddDependency_def)
next
  case (Step_AddTrigger q d)
  with assms show ?thesis by (auto simp: AddTrigger_def)
next
  case (Step_SetTimeTrigger q d)
  with assms show ?thesis by (auto simp: SetTimeTrigger_def)
next
  case (Step_Cancel q)
  with assms show ?thesis by (auto simp: Cancel_def)
next
  case (Step_TryExecute_enter now q)
  with assms show ?thesis
    by (auto dest!: TryExecute_enter_Some split: option.splits)
next
  case (Step_TryExecute_body q)
  with assms show ?thesis
    by (auto dest!: TryExecute_body_Inr split: if_splits sum.splits)
next
  case (Step_Submit q)
  with assms show ?thesis
    by (auto simp: Submit_heap Submit_scheduler Submit_rest Queue_IsCanceled_def Cancel_def)
next
  case Step_StartShutdown
  with assms show ?thesis by (auto simp: StartShutdown_def Queue_Cancel_def)
next
  case Step_Pop
  with assms show ?thesis
    by (auto simp: Pop_def split: if_splits dest: list.set_sel(2))
next
  case (Step_Requeue q)
  with assms show ?thesis by (auto simp: worker_requeue_def Push_def split: if_splits)
next
  case (Step_Invoke now dflt f)
  with assms show ?thesis
    by (auto simp: combinator_fields Queue_IsCanceled_def Cancel_def)
next
  case (Step_Then now dflt i f)
  with assms show ?thesis
    by (auto simp: combinator_fields Queue_IsCanceled_def Cancel_def)
next
  case (Step_WhenAll now all)
  with assms show ?thesis
    by (auto simp: combinator_fields Queue_IsCanceled_def Cancel_def)
next
  case (Step_WhenFirst now dflt all)
  with assms show ?thesis
    by (auto simp: combinator_fields Queue_IsCanceled_def Cancel_def)
next
  case (Step_WhenAllBeforeDeadline now all d)
  with assms show ?thesis
    by (auto simp: combinator_fields Queue_IsCanceled_def Cancel_def)
qed

lemma TryExecute_unfinished:
  assumes "TryExecute now s t = Inr s1" "\<not> IsFinished (heap s1) t"
  shows "s1 = s"
proof (cases "TryExecute_enter now (heap s) t")
  case None
  with assms(1) show ?thesis by (simp add: TryExecute_def)
next
  case (Some h1)
  with assms(1) obtain h2 where h2: "TryExecute_body (fn s t) h1 t = Inr h2" "s1 = s\<lparr>heap := h2\<rparr>"
    by (auto simp: TryExecute_def split: sum.splits)
  from TryExecute_body_Inr[OF h2(1)] have "IsFinished h2 t"
    by (auto simp: IsFinished_def)
  with assms(2) h2(2) show ?thesis by simp
qed

text \<open>
  Every move of the pool is a run of steps on the memory, so what holds along every run
  of steps holds along every run of the pool.
\<close>

lemma worker_move_as_run:
  assumes "worker_move now s pos = Some (s', pos')"
  shows "\<exists>steps. run steps s = Some s'"
proof (cases pos)
  case Idle
  with assms have "run [Step_Pop] s = Some s'"
    by (auto split: option.splits)
  then show ?thesis ..
next
  case (Popped task)
  show ?thesis
  proof (cases task)
    case None
    with Popped assms have "run [] s = Some s'" by simp
    then show ?thesis ..
  next
    case (Some p)
    show ?thesis
    proof (cases "IsCanceled (heap s) p")
      case True
      with Some Popped assms have "run [] s = Some s'" by simp
      then show ?thesis ..
    next
      case False
      with Some Popped assms have "run [Step_TryExecute_enter now p] s = Some s'"
        by (auto split: option.splits)
      then show ?thesis ..
    qed
  qed
next
  case (InBody p)
  with assms have "run [Step_TryExecute_body p] s = Some s'"
    by (auto split: option.splits if_splits sum.splits)
  then show ?thesis ..
next
  case (AfterTry p)
  with assms have "run [Step_Requeue p] s = Some s'" by simp
  then show ?thesis ..
next
  case Exited
  with assms show ?thesis by simp
qed

lemma pexec_as_run:
  assumes "pexec a P = Some P'"
  shows "\<exists>steps. run steps (sys P) = Some (sys P')"
proof (cases a)
  case (Worker i now)
  with assms obtain s1 pos where m: "worker_move now (sys P) (workers P i) = Some (s1, pos)"
    and P': "P' = P\<lparr>sys := s1, workers := (workers P)(i := pos)\<rparr>"
    by (auto split: option.splits)
  from worker_move_as_run[OF m] show ?thesis
    unfolding P' by simp
next
  case (Caller st)
  with assms have "run [st] (sys P) = Some (sys P')"
    by (auto split: if_splits option.splits)
  then show ?thesis ..
qed

lemma worker_move_keeps_dropped:
  assumes "worker_move now s pos = Some (s', pos')"
    and "pos \<noteq> Popped (Some t)" "pos \<noteq> InBody t"
    and "is_canceled (scheduler s)" "state (heap s t) = Pending"
    and "Some t \<notin> set (data (scheduler s))" "t < fresh s"
  shows "is_canceled (scheduler s') \<and> state (heap s' t) = Pending
       \<and> Some t \<notin> set (data (scheduler s')) \<and> t < fresh s'
       \<and> pos' \<noteq> Popped (Some t) \<and> pos' \<noteq> InBody t"
proof (cases pos)
  case Idle
  show ?thesis
  proof (cases "data (scheduler s)")
    case Nil
    with Idle assms show ?thesis
      by (auto simp: Pop_def split: if_splits)
  next
    case (Cons x xs)
    with assms(6) have "x \<noteq> Some t" "Some t \<notin> set xs" by auto
    with Cons Idle assms show ?thesis
      by (auto simp: Pop_def split: if_splits)
  qed
next
  case (Popped task)
  show ?thesis
  proof (cases task)
    case None
    with Popped assms show ?thesis by auto
  next
    case (Some p)
    with Popped assms(2) have "p \<noteq> t" by simp
    with Some Popped assms show ?thesis
      by (auto dest!: TryExecute_enter_Some split: if_splits option.splits)
  qed
next
  case (InBody p)
  with assms(3) have "p \<noteq> t" by simp
  with InBody assms show ?thesis
    by (auto dest!: TryExecute_body_Inr split: if_splits sum.splits option.splits)
next
  case (AfterTry p)
  with assms show ?thesis
    by (auto simp: worker_requeue_def Push_def split: if_splits)
next
  case Exited
  with assms show ?thesis by simp
qed

lemma pexec_keeps_dropped:
  assumes "pexec a P = Some P'" "\<not> caller_on a t"
    and "is_canceled (scheduler (sys P))" "state (heap (sys P) t) = Pending"
    and "Some t \<notin> set (data (scheduler (sys P)))" "t < fresh (sys P)"
    and "\<forall>j. workers P j \<noteq> Popped (Some t) \<and> workers P j \<noteq> InBody t"
  shows "is_canceled (scheduler (sys P')) \<and> state (heap (sys P') t) = Pending
       \<and> Some t \<notin> set (data (scheduler (sys P'))) \<and> t < fresh (sys P')
       \<and> (\<forall>j. workers P' j \<noteq> Popped (Some t) \<and> workers P' j \<noteq> InBody t)"
proof (cases a)
  case (Worker i now)
  with assms(1) obtain s1 pos where m: "worker_move now (sys P) (workers P i) = Some (s1, pos)"
    and P': "P' = P\<lparr>sys := s1, workers := (workers P)(i := pos)\<rparr>"
    by (auto split: option.splits)
  from assms(7) have w: "workers P i \<noteq> Popped (Some t)" "workers P i \<noteq> InBody t"
    by simp_all
  from worker_move_keeps_dropped[OF m w assms(3-6)] assms(7) show ?thesis
    unfolding P' by simp
next
  case (Caller st)
  with assms(1) obtain s1 where e: "exec st (sys P) = Some s1" and P': "P' = P\<lparr>sys := s1\<rparr>"
    by (auto split: if_splits option.splits)
  from Caller assms(2) have nt: "\<not> targets st t" by simp
  from exec_keeps_dropped[OF e nt assms(3-6)] assms(7) show ?thesis
    unfolding P' by simp
qed

lemma prun_keeps_dropped:
  "prun moves P = Some P' \<Longrightarrow> \<forall>a\<in>set moves. \<not> caller_on a t \<Longrightarrow>
   is_canceled (scheduler (sys P)) \<Longrightarrow> state (heap (sys P) t) = Pending \<Longrightarrow>
   Some t \<notin> set (data (scheduler (sys P))) \<Longrightarrow> t < fresh (sys P) \<Longrightarrow>
   \<forall>j. workers P j \<noteq> Popped (Some t) \<and> workers P j \<noteq> InBody t \<Longrightarrow>
   is_canceled (scheduler (sys P')) \<and> state (heap (sys P') t) = Pending
     \<and> Some t \<notin> set (data (scheduler (sys P'))) \<and> t < fresh (sys P')
     \<and> (\<forall>j. workers P' j \<noteq> Popped (Some t) \<and> workers P' j \<noteq> InBody t)"
proof (induction moves arbitrary: P)
  case Nil
  then show ?case by simp
next
  case (Cons a moves)
  then obtain P1 where P1: "pexec a P = Some P1" "prun moves P1 = Some P'"
    by (auto split: option.splits)
  from Cons.prems(2) have nt: "\<not> caller_on a t" "\<forall>x\<in>set moves. \<not> caller_on x t"
    by simp_all
  from pexec_keeps_dropped[OF P1(1) nt(1) Cons.prems(3-7)]
  have "is_canceled (scheduler (sys P1))" "state (heap (sys P1) t) = Pending"
    "Some t \<notin> set (data (scheduler (sys P1)))" "t < fresh (sys P1)"
    "\<forall>j. workers P1 j \<noteq> Popped (Some t) \<and> workers P1 j \<noteq> InBody t"
    by simp_all
  from Cons.IH[OF P1(2) nt(2) this] show ?case .
qed

text \<open>
  C9, as stated, fails: the dropped task does not stay \<^verbatim>\<open>Pending\<close> for ever. After the
  worker has dropped it, a caller that still holds the task cancels it; the task is then
  \<^verbatim>\<open>Canceled\<close> and \<^verbatim>\<open>Wait\<close> on it returns.
\<close>

theorem dropped_task_stays_pending_counterexample:
  "is_canceled (scheduler (sys drop_pool)) \<and> workers drop_pool 0 = AfterTry 2
   \<and> TryExecute 3 shut_sys 2 = Inr shut_sys \<and> \<not> IsFinished (heap shut_sys) 2
   \<and> prun [Worker 0 9, Caller (Step_Cancel 2)] drop_pool = Some drop_pool_canceled
   \<and> state (heap (sys drop_pool_canceled) 2) = Canceled
   \<and> Wait (heap (sys drop_pool_canceled)) 2 = Inr ()"
  by (simp add: drop_pool_def drop_pool_canceled_def shut_sys_def StartShutdown_def gate_sys_def
        gate_heap_def Queue_Cancel_def Queue_new_def worker_requeue_def Push_def IsFinished_def
        Cancel_def Wait_def TryExecute_def TryExecute_enter_def fun_upd_idem)

text \<open>
  C9, amended. A worker holds the popped task \<open>t\<close>, which is \<^verbatim>\<open>Pending\<close>, has no other
  entry in the queue and is held by no other worker; the queue is canceled, and the
  worker's \<^verbatim>\<open>TryExecute\<close> returns with the task not finished. Then the call has changed
  nothing, the \<^verbatim>\<open>Push\<close> of line 114 returns false and the queue stays as it is: the
  worker's next move leaves the memory unchanged and takes it back to \<^verbatim>\<open>Pop\<close>. From
  then on, along every interleaving of moves of the workers and of callers, as long as
  no caller cancels, submits or runs \<open>t\<close> itself, \<open>t\<close> stays \<^verbatim>\<open>Pending\<close>, never enters
  the queue again, is never popped or run by a worker, and \<^verbatim>\<open>Wait\<close> on it does not
  return.
\<close>

theorem dropped_task_stays_pending:
  assumes "is_canceled (scheduler s)" and "Some t \<notin> set (data (scheduler s))"
    and "t < fresh s" and "state (heap s t) = Pending"
    and "TryExecute now s t = Inr s1" and "\<not> IsFinished (heap s1) t"
    and "sys P = s1" and "workers P i = AfterTry t"
    and "\<forall>j. workers P j \<noteq> Popped (Some t) \<and> workers P j \<noteq> InBody t"
  shows "s1 = s \<and> Push (scheduler s1) (Some t) = (False, scheduler s1)
       \<and> worker_requeue s1 t = s \<and> worker_body now s (Some t) = Inr s
       \<and> pexec (Worker i now') P = Some (P\<lparr>workers := (workers P)(i := Idle)\<rparr>)
       \<and> (\<forall>moves P'. (\<forall>a\<in>set moves. \<not> caller_on a t) \<and> prun moves P = Some P' \<longrightarrow>
            state (heap (sys P') t) = Pending \<and> Some t \<notin> set (data (scheduler (sys P')))
            \<and> Wait (heap (sys P')) t = Inl Blocked
            \<and> (\<forall>j. workers P' j \<noteq> Popped (Some t) \<and> workers P' j \<noteq> InBody t))"
proof -
  have e: "s1 = s" by (rule TryExecute_unfinished[OF assms(5,6)])
  have p: "Push (scheduler s) (Some t) = (False, scheduler s)"
    using assms(1) by (simp add: Push_def)
  have r: "worker_requeue s t = s"
    using p by (simp add: worker_requeue_def)
  have w: "worker_body now s (Some t) = Inr s"
    using assms(4,5) e r by (simp add: worker_body_def IsCanceled_def)
  have sP: "sys P = s" using assms(7) e by simp
  have m: "pexec (Worker i now') P = Some (P\<lparr>workers := (workers P)(i := Idle)\<rparr>)"
    using assms(8) r sP by simp
  have f: "state (heap (sys P') t) = Pending \<and> Some t \<notin> set (data (scheduler (sys P')))
            \<and> Wait (heap (sys P')) t = Inl Blocked
            \<and> (\<forall>j. workers P' j \<noteq> Popped (Some t) \<and> workers P' j \<noteq> InBody t)"
    if "\<forall>a\<in>set moves. \<not> caller_on a t" "prun moves P = Some P'" for moves P'
    using prun_keeps_dropped[OF that(2) that(1), unfolded sP, OF assms(1) assms(4) assms(2) assms(3)]
      assms(9)
    by (simp add: Wait_def IsFinished_def)
  have g: "\<forall>moves P'. (\<forall>a\<in>set moves. \<not> caller_on a t) \<and> prun moves P = Some P' \<longrightarrow>
            state (heap (sys P') t) = Pending \<and> Some t \<notin> set (data (scheduler (sys P')))
            \<and> Wait (heap (sys P')) t = Inl Blocked
            \<and> (\<forall>j. workers P' j \<noteq> Popped (Some t) \<and> workers P' j \<noteq> InBody t)"
    using f by blast
  show ?thesis
    unfolding e using p r w m g by simp
qed

theorem dropped_task_stays_pending_witness:
  "TryExecute 3 shut_sys 2 = Inr shut_sys
   \<and> worker_body 3 shut_sys (Some 2) = Inr shut_sys
   \<and> pexec (Worker 0 9) drop_pool = Some (drop_pool\<lparr>workers := (workers drop_pool)(0 := Idle)\<rparr>)
   \<and> (\<exists>P'. prun drop_moves drop_pool = Some P' \<and> state (heap (sys P') 2) = Pending
         \<and> Wait (heap (sys P')) 2 = Inl Blocked)"
proof -
  have c: "is_canceled (scheduler shut_sys)" "Some 2 \<notin> set (data (scheduler shut_sys))"
    "2 < fresh shut_sys" "state (heap shut_sys 2) = Pending"
    by (simp_all add: shut_sys_def StartShutdown_def gate_sys_def gate_heap_def
          Queue_Cancel_def Queue_new_def)
  have te: "TryExecute 3 shut_sys 2 = Inr shut_sys"
    by (simp add: TryExecute_def TryExecute_enter_def shut_sys_def StartShutdown_def gate_sys_def
          gate_heap_def IsFinished_def)
  have nf: "\<not> IsFinished (heap shut_sys) 2"
    using c(4) by (simp add: IsFinished_def)
  have P: "sys drop_pool = shut_sys" "workers drop_pool 0 = AfterTry 2"
    "\<forall>j. workers drop_pool j \<noteq> Popped (Some 2) \<and> workers drop_pool j \<noteq> InBody 2"
    by (simp_all add: drop_pool_def)
  have nt: "\<forall>a\<in>set drop_moves. \<not> caller_on a 2"
    by (simp add: drop_moves_def)
  have "\<exists>P'. prun drop_moves drop_pool = Some P'"
    by (simp add: drop_moves_def drop_pool_def shut_sys_def StartShutdown_def gate_sys_def
          gate_heap_def Queue_Cancel_def Queue_new_def Pop_def Push_def worker_requeue_def
          TryExecute_enter_def IsFinished_def combinator_fields Queue_IsCanceled_def
          Cancel_def new_Task_def)
  then obtain P' where P': "prun drop_moves drop_pool = Some P'" by blast
  note th = dropped_task_stays_pending[OF c te nf P, of 9]
  from th have "worker_body 3 shut_sys (Some 2) = Inr shut_sys"
    "pexec (Worker 0 9) drop_pool = Some (drop_pool\<lparr>workers := (workers drop_pool)(0 := Idle)\<rparr>)"
    by blast+
  moreover from th nt P' have "state (heap (sys P') 2) = Pending \<and> Wait (heap (sys P')) 2 = Inl Blocked"
    by blast
  ultimately show ?thesis using te P' by blast
qed

end
